theory Spec2Isabelle
  imports Main
begin

text \<open>
  iNatJS queues requests to the iNaturalist API and dispatches them one at a time,
  with a delay between dispatches once the queue has been long. This theory embeds
  its functions \<open>makeINatRequest\<close>, \<open>queueINatRequest\<close>, \<open>checkAuthentication\<close>,
  \<open>toRISON\<close> and \<open>getUrlParams\<close> and proves what they do.
\<close>

section \<open>JavaScript values\<close>

text \<open>
  The toolkit is JavaScript. The values its utility functions receive are modelled by
  the JSON values together with \<open>undefined\<close>. A plain object (one whose prototype is
  \<open>Object.prototype\<close>) is the list of its own enumerable properties in the order
  \<open>Object.entries\<close> yields them; their values are values of this type, so none of
  them is a function. An array has its elements and no other own property. A number
  is represented by the text JavaScript prints for it (\<open>JNum ''42''\<close>), since the
  program never computes with a number. A string is its list of bytes. An exception
  is a value of \<open>js_error\<close>, and a function that can throw returns a sum with the
  error on the left.
\<close>

datatype js_error = TypeError | URIError

datatype jsval =
    JUndefined
  | JNull
  | JBool bool
  | JNum string
  | JStr string
  | JArr "jsval list"
  | JObj "(string \<times> jsval) list"

text \<open>The operator \<open>typeof\<close>: \<open>null\<close> and arrays are objects.\<close>

fun typeof :: "jsval \<Rightarrow> string" where
  "typeof JUndefined = ''undefined''"
| "typeof JNull = ''object''"
| "typeof (JBool b) = ''boolean''"
| "typeof (JNum n) = ''number''"
| "typeof (JStr s) = ''string''"
| "typeof (JArr xs) = ''object''"
| "typeof (JObj kvs) = ''object''"

text \<open>
  Whether an object has an own property of a name. A read \<open>o.name\<close> finds the own
  property before the one inherited from \<open>Object.prototype\<close>.
\<close>

definition has_own :: "(string \<times> jsval) list \<Rightarrow> string \<Rightarrow> bool" where
  "has_own kvs name = (name \<in> set (map fst kvs))"

text \<open>\<open>Array.prototype.join\<close> on strings, and \<open>String.prototype.split\<close> on one character.\<close>

fun join :: "string \<Rightarrow> string list \<Rightarrow> string" where
  "join sep [] = []"
| "join sep [x] = x"
| "join sep (x # y # ys) = x @ sep @ join sep (y # ys)"

fun split_on :: "char \<Rightarrow> string \<Rightarrow> string list" where
  "split_on d [] = [[]]"
| "split_on d (c # cs) =
     (if c = d then [] # split_on d cs
      else (case split_on d cs of [] \<Rightarrow> [[c]] | w # ws \<Rightarrow> (c # w) # ws))"

text \<open>
  The conversion to a string that \<open>+\<close> and \<open>join\<close> apply. An array converts through
  \<open>Array.prototype.toString\<close>, which joins it with commas. An object converts through
  its \<open>toString\<close>: the inherited one gives \<open>[object Object]\<close>; an own property
  \<open>toString\<close> is not a function here, so the conversion goes on to \<open>valueOf\<close>, which
  is not a function either or is the inherited one and returns the object, and a
  \<open>TypeError\<close> is thrown. \<open>ToString_elements\<close> are the texts that \<open>join\<close> puts
  between the separators: the empty text for an element that is \<open>undefined\<close> or
  \<open>null\<close>, the conversion of the element otherwise.
\<close>

fun ToString :: "jsval \<Rightarrow> js_error + string"
  and ToString_elements :: "jsval list \<Rightarrow> js_error + string list" where
  "ToString JUndefined = Inr ''undefined''"
| "ToString JNull = Inr ''null''"
| "ToString (JBool b) = Inr (if b then ''true'' else ''false'')"
| "ToString (JNum n) = Inr n"
| "ToString (JStr s) = Inr s"
| "ToString (JArr xs) =
     (case ToString_elements xs of
        Inl e \<Rightarrow> Inl e
      | Inr texts \<Rightarrow> Inr (join '','' texts))"
| "ToString (JObj kvs) =
     (if has_own kvs ''toString'' then Inl TypeError else Inr ''[object Object]'')"
| "ToString_elements [] = Inr []"
| "ToString_elements (x # xs) =
     (if x = JUndefined \<or> x = JNull then
        (case ToString_elements xs of
           Inl e \<Rightarrow> Inl e
         | Inr texts \<Rightarrow> Inr ([] # texts))
      else
        (case ToString x of
           Inl e \<Rightarrow> Inl e
         | Inr t \<Rightarrow>
             (case ToString_elements xs of
                Inl e \<Rightarrow> Inl e
              | Inr texts \<Rightarrow> Inr (t # texts))))"

section \<open>The structured parameter encoder: toRISON\<close>

text \<open>
  The branch of \<open>toRISON\<close> for an array: \<open>"(" + arr.join(":!t,") + ":!t)"\<close>. It
  throws what the conversion of an element throws.
\<close>

definition rison_of_array :: "jsval list \<Rightarrow> js_error + jsval" where
  "rison_of_array xs =
     (case ToString_elements xs of
        Inl e \<Rightarrow> Inl e
      | Inr texts \<Rightarrow> Inr (JStr (''('' @ join '':!t,'' texts @ '':!t)'')))"

text \<open>
  \<open>toRISON\<close> reads \<open>arr.constructor\<close> first. The read throws a \<open>TypeError\<close> on
  \<open>undefined\<close> and on \<open>null\<close>. On an object it gives \<open>Object\<close> unless the object has
  an own property \<open>constructor\<close>, whose value is none of \<open>Object\<close>, \<open>Array\<close> and
  \<open>String\<close>: such an object falls through to the last branch, as a boolean and a
  number do. The loop over \<open>Object.entries(arr)\<close> is \<open>toRISON_entries\<close>; it returns
  the array \<open>param\<close>. A string with a comma is split and passed to \<open>toRISON\<close> again,
  where it takes the array branch: the model calls that branch directly (lemma
  \<open>toRISON_comma_string\<close> states the recursive call). The result \<open>false\<close> of the last
  branch is \<open>JBool False\<close>.
\<close>

fun toRISON :: "jsval \<Rightarrow> js_error + jsval"
  and toRISON_entries :: "(string \<times> jsval) list \<Rightarrow> js_error + string list" where
  "toRISON JUndefined = Inl TypeError"
| "toRISON JNull = Inl TypeError"
| "toRISON (JObj kvs) =
     (if has_own kvs ''constructor'' then Inr (JBool False)
      else
        (case toRISON_entries kvs of
           Inl e \<Rightarrow> Inl e
         | Inr param \<Rightarrow> Inr (JStr (''('' @ join '','' param @ '')''))))"
| "toRISON (JArr xs) = rison_of_array xs"
| "toRISON (JStr s) =
     (if CHR '','' \<in> set s then rison_of_array (map JStr (split_on CHR '','' s))
      else Inr (JStr (''('' @ s @ '':!t)'')))"
| "toRISON (JBool b) = Inr (JBool False)"
| "toRISON (JNum n) = Inr (JBool False)"
| "toRISON_entries [] = Inr []"
| "toRISON_entries ((key, v) # rest) =
     (if typeof v = ''object'' then
        (case toRISON v of
           Inl e \<Rightarrow> Inl e
         | Inr r \<Rightarrow>
             (case ToString r of
                Inl e \<Rightarrow> Inl e
              | Inr t \<Rightarrow>
                  (case toRISON_entries rest of
                     Inl e \<Rightarrow> Inl e
                   | Inr param \<Rightarrow> Inr ((key @ '':'' @ t) # param))))
      else
        (case toRISON_entries rest of
           Inl e \<Rightarrow> Inl e
         | Inr param \<Rightarrow> Inr ((key @ '':!t'') # param)))"


section \<open>Request descriptors and the request URL\<close>

text \<open>
  A descriptor carries \<open>method\<close> (the field \<open>http_method\<close>), \<open>apiVersion\<close>,
  \<open>endpoint\<close>, the optional \<open>params\<close>, \<open>fields\<close> (the field \<open>req_fields\<close>) and
  \<open>headers\<close>, and its callbacks \<open>success\<close> and \<open>error\<close>. An absent optional key
  reads as \<open>undefined\<close>: it is \<open>None\<close> here. The type \<open>'p\<close> is the type of the
  \<open>params\<close> object, which only jQuery's \<open>$.param\<close> reads; that function is a
  parameter \<open>jq_param\<close> of the model. The body \<open>data\<close> goes to the transport untouched
  and is left out. The callbacks of an application are opaque and are known by a
  number; the callbacks that \<open>checkAuthentication\<close> builds are \<open>Probe cb\<close>, where \<open>cb\<close>
  is the number of its \<open>callback\<close> argument.
\<close>

datatype header_source = NoHeaders | SharedHeaders | OwnHeaders string

datatype callbacks = Application nat | Probe nat

record 'p request =
  http_method :: string
  apiVersion :: string
  endpoint :: string
  params :: "'p option"
  req_fields :: "string option"
  headers :: header_source
  callbacks :: callbacks

definition base_url :: string where
  "base_url = ''https://api.inaturalist.org''"

text \<open>
  Lines 112 to 118 of \<open>makeINatRequest\<close>. The test \<open>typeof request.params == 'object'\<close>
  holds when \<open>params\<close> is present. In \<open>request.fields != ""\<close> the loose inequality holds
  for every string but the empty one and it holds for \<open>undefined\<close>, whose concatenation
  to a string is the text \<open>undefined\<close>.
\<close>

definition request_url :: "('p \<Rightarrow> string) \<Rightarrow> 'p request \<Rightarrow> string" where
  "request_url jq_param request =
     (let url = join ''/'' [base_url, apiVersion request, endpoint request];
          url = (case params request of
                   Some p \<Rightarrow> url @ ''?'' @ jq_param p
                 | None \<Rightarrow> url)
      in if apiVersion request = ''v2'' \<and> req_fields request \<noteq> Some []
         then url @ (case params request of Some p \<Rightarrow> ''&'' | None \<Rightarrow> ''?'')
                  @ ''fields=''
                  @ (case req_fields request of Some f \<Rightarrow> f | None \<Rightarrow> ''undefined'')
         else url)"

section \<open>The queue and the dispatcher\<close>

record apiOptions =
  APITimeout :: nat
  RequestsPerMinute :: nat

definition apiOptions_default :: apiOptions where
  "apiOptions_default = \<lparr>APITimeout = 1000, RequestsPerMinute = 60\<rparr>"

text \<open>
  What the program does to the outside, in the order it does it: a call of \<open>$.ajax\<close>
  with a descriptor and its URL, the call of a descriptor's \<open>success\<close> or \<open>error\<close>
  callback, the call of the \<open>callback\<close> of \<open>checkAuthentication\<close> with \<open>true\<close> or
  \<open>false\<close>, and a call \<open>setTimeout(makeINatRequest, d)\<close>.
\<close>

datatype 'p observation =
    Ajax "'p request" string
  | SuccessCalled "'p request"
  | ErrorCalled "'p request"
  | Verified nat bool
  | SetTimeout nat

text \<open>
  The global variables, and with them the calls of \<open>$.ajax\<close> that have not completed
  (\<open>in_flight\<close>), the timeouts that have not fired (\<open>timers\<close>, each with its delay) and
  the observations so far (\<open>happened\<close>).
\<close>

record 'p state =
  iNatAPIQueue :: "'p request list"
  iNatAPIQueued :: bool
  iNatAPIRateLimiting :: bool
  iNatAuthorized :: "string option"
  Authorization :: string
  in_flight :: "'p request list"
  timers :: "nat list"
  happened :: "'p observation list"

definition initial :: "'p state" where
  "initial =
     \<lparr>iNatAPIQueue = [], iNatAPIQueued = False, iNatAPIRateLimiting = False,
      iNatAuthorized = None, Authorization = [], in_flight = [], timers = [],
      happened = []\<rparr>"

definition makeINatRequest :: "apiOptions \<Rightarrow> ('p \<Rightarrow> string) \<Rightarrow> 'p state \<Rightarrow> 'p state" where
  "makeINatRequest opts jq_param s =
     (case iNatAPIQueue s of
        request # remaining \<Rightarrow>
          (let s1 = s\<lparr>iNatAPIQueue := remaining\<rparr>;
               s2 = (if length remaining > RequestsPerMinute opts
                     then s1\<lparr>iNatAPIRateLimiting := True\<rparr> else s1);
               url = request_url jq_param request
           in s2\<lparr>in_flight := in_flight s2 @ [request],
                 happened := happened s2 @ [Ajax request url]\<rparr>)
      | [] \<Rightarrow> s\<lparr>iNatAPIQueued := False, iNatAPIRateLimiting := False\<rparr>)"

definition queueINatRequest ::
  "apiOptions \<Rightarrow> ('p \<Rightarrow> string) \<Rightarrow> 'p request \<Rightarrow> 'p state \<Rightarrow> 'p state" where
  "queueINatRequest opts jq_param request s =
     (let s1 = s\<lparr>iNatAPIQueue := iNatAPIQueue s @ [request]\<rparr>;
          s2 = (if \<not> iNatAPIQueued s1 then makeINatRequest opts jq_param s1 else s1)
      in s2\<lparr>iNatAPIQueued := True\<rparr>)"

text \<open>
  The transport answers a call once, with a success or with an error. The only
  response whose content the program reads is the one to the probe of
  \<open>checkAuthentication\<close>: \<open>Success l\<close> carries \<open>user.results[0].login\<close>.
\<close>

datatype response = Success string | Failure

text \<open>
  The \<open>success\<close> and \<open>error\<close> functions given to \<open>$.ajax\<close> call the descriptor's
  callback; for a probe that callback is the one written in \<open>checkAuthentication\<close>.
\<close>

definition run_callback :: "'p request \<Rightarrow> response \<Rightarrow> 'p state \<Rightarrow> 'p state" where
  "run_callback request resp s =
     (case resp of
        Success l \<Rightarrow>
          (let s1 = s\<lparr>happened := happened s @ [SuccessCalled request]\<rparr> in
           case callbacks request of
             Application n \<Rightarrow> s1
           | Probe cb \<Rightarrow>
               s1\<lparr>iNatAuthorized := Some l, happened := happened s1 @ [Verified cb True]\<rparr>)
      | Failure \<Rightarrow>
          (let s1 = s\<lparr>happened := happened s @ [ErrorCalled request]\<rparr> in
           case callbacks request of
             Application n \<Rightarrow> s1
           | Probe cb \<Rightarrow>
               s1\<lparr>Authorization := [], iNatAuthorized := None,
                  happened := happened s1 @ [Verified cb False]\<rparr>))"

text \<open>The \<open>complete\<close> function given to \<open>$.ajax\<close>.\<close>

definition complete :: "apiOptions \<Rightarrow> ('p \<Rightarrow> string) \<Rightarrow> 'p state \<Rightarrow> 'p state" where
  "complete opts jq_param s =
     (if iNatAPIRateLimiting s
      then s\<lparr>timers := timers s @ [APITimeout opts],
              happened := happened s @ [SetTimeout (APITimeout opts)]\<rparr>
      else makeINatRequest opts jq_param s)"

section \<open>The authentication check\<close>

text \<open>
  The descriptor that \<open>checkAuthentication\<close> queues. A token is an optional string;
  \<open>if (apiToken)\<close> holds for a string that is not empty.
\<close>

definition probe :: "nat \<Rightarrow> 'p request" where
  "probe cb =
     \<lparr>http_method = ''GET'', apiVersion = ''v2'', endpoint = ''users/me'',
      params = None, req_fields = Some ''login'', headers = SharedHeaders,
      callbacks = Probe cb\<rparr>"

definition truthy :: "string option \<Rightarrow> bool" where
  "truthy apiToken = (case apiToken of None \<Rightarrow> False | Some t \<Rightarrow> t \<noteq> [])"

definition checkAuthentication ::
  "apiOptions \<Rightarrow> ('p \<Rightarrow> string) \<Rightarrow> string option \<Rightarrow> nat \<Rightarrow> 'p state \<Rightarrow> 'p state" where
  "checkAuthentication opts jq_param apiToken cb s =
     (case apiToken of
        Some t \<Rightarrow>
          if t \<noteq> [] then queueINatRequest opts jq_param (probe cb) (s\<lparr>Authorization := t\<rparr>)
          else s\<lparr>happened := happened s @ [Verified cb False]\<rparr>
      | None \<Rightarrow> s\<lparr>happened := happened s @ [Verified cb False]\<rparr>)"

section \<open>Runs of the program\<close>

text \<open>
  The program runs on one thread, so a run is a sequence of events, each handled to
  its end: the application calls \<open>queueINatRequest\<close> or \<open>checkAuthentication\<close>, the
  transport completes one of the calls in flight, or a timeout fires. An event for a
  call or a timeout that does not exist changes nothing.
\<close>

datatype 'p event =
    Queue "'p request"
  | CheckAuthentication "string option" nat
  | Completes nat response
  | TimerFires nat

definition without :: "nat \<Rightarrow> 'a list \<Rightarrow> 'a list" where
  "without i xs = take i xs @ drop (Suc i) xs"

fun step :: "apiOptions \<Rightarrow> ('p \<Rightarrow> string) \<Rightarrow> 'p state \<Rightarrow> 'p event \<Rightarrow> 'p state" where
  "step opts jq_param s (Queue request) = queueINatRequest opts jq_param request s"
| "step opts jq_param s (CheckAuthentication apiToken cb) =
     checkAuthentication opts jq_param apiToken cb s"
| "step opts jq_param s (Completes i resp) =
     (if i < length (in_flight s)
      then complete opts jq_param
             (run_callback (in_flight s ! i) resp (s\<lparr>in_flight := without i (in_flight s)\<rparr>))
      else s)"
| "step opts jq_param s (TimerFires i) =
     (if i < length (timers s)
      then makeINatRequest opts jq_param (s\<lparr>timers := without i (timers s)\<rparr>)
      else s)"

definition run :: "apiOptions \<Rightarrow> ('p \<Rightarrow> string) \<Rightarrow> 'p event list \<Rightarrow> 'p state \<Rightarrow> 'p state" where
  "run opts jq_param evs s = foldl (step opts jq_param) s evs"

text \<open>
  The descriptors whose \<open>success\<close> or \<open>error\<close> callback has been called, in the order
  of the calls, and the descriptors a sequence of events passes to
  \<open>queueINatRequest\<close>, in the order it passes them.
\<close>

fun fired :: "'p observation list \<Rightarrow> 'p request list" where
  "fired [] = []"
| "fired (SuccessCalled r # os) = r # fired os"
| "fired (ErrorCalled r # os) = r # fired os"
| "fired (Ajax r u # os) = fired os"
| "fired (Verified cb b # os) = fired os"
| "fired (SetTimeout d # os) = fired os"

fun pushed :: "'p event list \<Rightarrow> 'p request list" where
  "pushed [] = []"
| "pushed (Queue r # evs) = r # pushed evs"
| "pushed (CheckAuthentication apiToken cb # evs) =
     (if truthy apiToken then probe cb # pushed evs else pushed evs)"
| "pushed (Completes i resp # evs) = pushed evs"
| "pushed (TimerFires i # evs) = pushed evs"

text \<open>The delays of the timeouts set, in the order they were set.\<close>

fun delays :: "'p observation list \<Rightarrow> nat list" where
  "delays [] = []"
| "delays (SetTimeout d # os) = d # delays os"
| "delays (SuccessCalled r # os) = delays os"
| "delays (ErrorCalled r # os) = delays os"
| "delays (Ajax r u # os) = delays os"
| "delays (Verified cb b # os) = delays os"

text \<open>
  The descriptors dispatched (passed to \<open>$.ajax\<close>), in the order of the calls, and
  the events that are the firing of a timeout.
\<close>

fun dispatched :: "'p observation list \<Rightarrow> 'p request list" where
  "dispatched [] = []"
| "dispatched (Ajax r u # os) = r # dispatched os"
| "dispatched (SuccessCalled r # os) = dispatched os"
| "dispatched (ErrorCalled r # os) = dispatched os"
| "dispatched (Verified cb b # os) = dispatched os"
| "dispatched (SetTimeout d # os) = dispatched os"

fun timer_event :: "'p event \<Rightarrow> bool" where
  "timer_event (TimerFires i) = True"
| "timer_event (Queue r) = False"
| "timer_event (CheckAuthentication apiToken cb) = False"
| "timer_event (Completes i resp) = False"

text \<open>
  The transport answering every call and every timeout firing: one round per
  response, the completion of the call in flight and then the timeout, if one is
  pending.
\<close>

definition rounds :: "response list \<Rightarrow> 'p event list" where
  "rounds rs = concat (map (\<lambda>r. [Completes 0 r, TimerFires 0]) rs)"

section \<open>The URL parameter parser: getUrlParams\<close>

subsection \<open>decodeURIComponent\<close>

text \<open>
  The built-in \<open>decodeURIComponent\<close>, after the abstract operation Decode of
  ECMAScript. A string is a list of bytes, so a character outside ASCII is its UTF-8
  bytes and the decoded text of a valid escape sequence is the bytes it spells.
  \<open>escape\<close> reads one \<open>%XX\<close>; \<open>escapes n\<close> reads \<open>n\<close> of them in a row. A
  \<open>%\<close> that is not followed by two hexadecimal digits, a first byte that announces
  no UTF-8 sequence, a missing continuation escape and a sequence of bytes that is
  not the UTF-8 encoding of a code point all throw a \<open>URIError\<close>.
\<close>

definition hex_digit :: "char \<Rightarrow> nat option" where
  "hex_digit c =
     (let n = (of_char c :: nat) in
      if 48 \<le> n \<and> n \<le> 57 then Some (n - 48)
      else if 65 \<le> n \<and> n \<le> 70 then Some (n - 55)
      else if 97 \<le> n \<and> n \<le> 102 then Some (n - 87)
      else None)"

fun escape :: "string \<Rightarrow> (nat \<times> string) option" where
  "escape (p # h # l # rest) =
     (if p = CHR ''%'' then
        (case (hex_digit h, hex_digit l) of
           (Some a, Some b) \<Rightarrow> Some (16 * a + b, rest)
         | _ \<Rightarrow> None)
      else None)"
| "escape _ = None"

fun escapes :: "nat \<Rightarrow> string \<Rightarrow> (nat list \<times> string) option" where
  "escapes 0 s = Some ([], s)"
| "escapes (Suc n) s =
     (case escape s of
        None \<Rightarrow> None
      | Some (b, rest) \<Rightarrow>
          (case escapes n rest of
             None \<Rightarrow> None
           | Some (bs, rest') \<Rightarrow> Some (b # bs, rest')))"

definition leading_ones :: "nat \<Rightarrow> nat" where
  "leading_ones b =
     (if b < 128 then 0 else if b < 192 then 1 else if b < 224 then 2
      else if b < 240 then 3 else if b < 248 then 4 else 5)"

definition continuation :: "nat \<Rightarrow> bool" where
  "continuation b = (128 \<le> b \<and> b < 192)"

fun valid_utf8 :: "nat list \<Rightarrow> bool" where
  "valid_utf8 [b0, b1] = (194 \<le> b0 \<and> b0 < 224 \<and> continuation b1)"
| "valid_utf8 [b0, b1, b2] =
     (224 \<le> b0 \<and> b0 < 240 \<and> continuation b1 \<and> continuation b2
      \<and> (if b0 = 224 then 160 \<le> b1 else if b0 = 237 then b1 < 160 else True))"
| "valid_utf8 [b0, b1, b2, b3] =
     (240 \<le> b0 \<and> b0 < 245 \<and> continuation b1 \<and> continuation b2 \<and> continuation b3
      \<and> (if b0 = 240 then 144 \<le> b1 else if b0 = 244 then b1 < 144 else True))"
| "valid_utf8 _ = False"

lemma escape_shorter: "escape s = Some (b, rest) \<Longrightarrow> length rest < length s"
  by (induction s rule: escape.induct) (auto split: if_splits option.splits)

lemma escapes_shorter: "escapes n s = Some (bs, rest) \<Longrightarrow> length rest \<le> length s"
proof (induction n arbitrary: s bs rest)
  case 0
  then show ?case by simp
next
  case (Suc n)
  then show ?case
    by (fastforce split: option.splits prod.splits dest: escape_shorter)
qed

function decodeURIComponent :: "string \<Rightarrow> js_error + string" where
  "decodeURIComponent [] = Inr []"
| "decodeURIComponent (c # cs) =
     (if c \<noteq> CHR ''%'' then
        (case decodeURIComponent cs of Inl e \<Rightarrow> Inl e | Inr r \<Rightarrow> Inr (c # r))
      else
        (case escape (c # cs) of
           None \<Rightarrow> Inl URIError
         | Some (b, rest) \<Rightarrow>
             (let n = leading_ones b in
              if n = 0 then
                (case decodeURIComponent rest of
                   Inl e \<Rightarrow> Inl e
                 | Inr r \<Rightarrow> Inr (char_of b # r))
              else if n = 1 \<or> n > 4 then Inl URIError
              else
                (case escapes (n - 1) rest of
                   None \<Rightarrow> Inl URIError
                 | Some (bs, rest') \<Rightarrow>
                     if valid_utf8 (b # bs) then
                       (case decodeURIComponent rest' of
                          Inl e \<Rightarrow> Inl e
                        | Inr r \<Rightarrow> Inr (map char_of (b # bs) @ r))
                     else Inl URIError))))"
  by pat_completeness auto
termination
proof (relation "measure length")
  show "wf (measure length)" by simp
next
  fix c cs assume "c \<noteq> CHR ''%''"
  show "(cs, c # cs) \<in> measure length" by simp
next
  fix c cs x2 x y xa
  assume "escape (c # cs) = Some x2" "(x, y) = x2"
  then show "(y, c # cs) \<in> measure length"
    using escape_shorter [of "c # cs" x y] by simp
next
  fix c cs x2 x y xa x2a xb ya
  assume "escape (c # cs) = Some x2" "(x, y) = x2" "escapes (xa - 1) y = Some x2a" "(xb, ya) = x2a"
  then show "(ya, c # cs) \<in> measure length"
    using escape_shorter [of "c # cs" x y] escapes_shorter [of "xa - 1" y xb ya] by simp
qed

subsection \<open>The regular expression\<close>

text \<open>
  \<open>url.replace(/[?&]?([^=&]+)=([^&]*)/g, f)\<close> calls \<open>f\<close> on every match, from left to
  right, the search for the next match starting where the last one ended. A match at
  the start of \<open>s\<close> is \<open>match_here s\<close>: the key, the value and the text after the match.
  The class \<open>[^=&]+\<close> takes the longest run of key characters, which must not be empty
  and must be followed by \<open>=\<close> (a shorter run is followed by a key character, so
  backtracking into the run never helps); \<open>[^&]*\<close> takes the longest run of value
  characters. The optional \<open>[?&]\<close> is tried first with the character and then without
  it. No match is empty.
\<close>

definition key_char :: "char \<Rightarrow> bool" where
  "key_char c = (c \<noteq> CHR ''='' \<and> c \<noteq> CHR ''&'')"

definition value_char :: "char \<Rightarrow> bool" where
  "value_char c = (c \<noteq> CHR ''&'')"

definition match_pair :: "string \<Rightarrow> (string \<times> string \<times> string) option" where
  "match_pair s =
     (let key = takeWhile key_char s; r = dropWhile key_char s in
      case r of
        [] \<Rightarrow> None
      | c # t \<Rightarrow>
          if key \<noteq> [] \<and> c = CHR ''=''
          then Some (key, takeWhile value_char t, dropWhile value_char t)
          else None)"

definition match_here :: "string \<Rightarrow> (string \<times> string \<times> string) option" where
  "match_here s =
     (case s of
        [] \<Rightarrow> None
      | c # t \<Rightarrow>
          if c = CHR ''?'' \<or> c = CHR ''&'' then
            (case match_pair t of
               Some m \<Rightarrow> Some m
             | None \<Rightarrow> match_pair s)
          else match_pair s)"

lemma match_pair_shorter: "match_pair s = Some (k, v, rest) \<Longrightarrow> length rest < length s"
proof -
  assume a: "match_pair s = Some (k, v, rest)"
  have l: "length (dropWhile key_char s) \<le> length s" by (rule length_dropWhile_le)
  from a obtain t where t: "dropWhile key_char s = CHR ''='' # t" and r: "rest = dropWhile value_char t"
    by (auto simp: match_pair_def Let_def split: list.splits if_splits)
  have "length rest \<le> length t" unfolding r by (rule length_dropWhile_le)
  with l t show ?thesis by simp
qed

lemma match_here_shorter: "match_here s = Some (k, v, rest) \<Longrightarrow> length rest < length s"
  by (auto simp: match_here_def split: list.splits if_splits option.splits
      dest: match_pair_shorter)

function matches :: "string \<Rightarrow> (string \<times> string) list" where
  "matches [] = []"
| "matches (c # t) =
     (case match_here (c # t) of
        Some (k, v, rest) \<Rightarrow> (k, v) # matches rest
      | None \<Rightarrow> matches t)"
  by pat_completeness auto
termination
proof (relation "measure length")
  show "wf (measure length)" by simp
next
  fix c t
  show "(t, c # t) \<in> measure length" by simp
next
  fix c t x2 x y xa ya
  assume "match_here (c # t) = Some x2" "(x, y) = x2" "(xa, ya) = y"
  then show "(ya, c # t) \<in> measure length"
    using match_here_shorter [of "c # t" x xa ya] by simp
qed

subsection \<open>getUrlParams\<close>

text \<open>
  The object \<open>params\<close> starts as \<open>{}\<close>: its own properties are a map, and it inherits
  the properties of \<open>Object.prototype\<close>. The assignment \<open>params[key] = v\<close> creates or
  overwrites the own property \<open>key\<close>, except for the key \<open>__proto__\<close>, whose inherited
  setter ignores a string. The callback throws what \<open>decodeURIComponent\<close> throws, and
  nothing catches it. The read \<open>params[key]\<close> gives the own property, else the
  inherited one, else \<open>undefined\<close>. The argument \<open>key\<close> is an optional string, and
  \<open>key ? params[key] : params\<close> takes the first branch for a string that is not empty.
\<close>

definition Object_prototype_names :: "string list" where
  "Object_prototype_names =
     [''constructor'', ''hasOwnProperty'', ''isPrototypeOf'', ''propertyIsEnumerable'',
      ''toLocaleString'', ''toString'', ''valueOf'', ''__proto__'', ''__defineGetter__'',
      ''__defineSetter__'', ''__lookupGetter__'', ''__lookupSetter__'']"

definition assign :: "(string \<rightharpoonup> string) \<Rightarrow> string \<Rightarrow> string \<Rightarrow> (string \<rightharpoonup> string)" where
  "assign ps key v = (if key = ''__proto__'' then ps else ps(key \<mapsto> v))"

fun store_all :: "(string \<times> string) list \<Rightarrow> (string \<rightharpoonup> string) \<Rightarrow> js_error + (string \<rightharpoonup> string)" where
  "store_all [] ps = Inr ps"
| "store_all ((key, v) # ms) ps =
     (case decodeURIComponent v of
        Inl e \<Rightarrow> Inl e
      | Inr d \<Rightarrow> store_all ms (assign ps key d))"

datatype url_params =
    Params "string \<rightharpoonup> string"
  | Own string
  | Inherited string
  | Undefined

definition property :: "(string \<rightharpoonup> string) \<Rightarrow> string \<Rightarrow> url_params" where
  "property ps key =
     (case ps key of
        Some v \<Rightarrow> Own v
      | None \<Rightarrow> if key \<in> set Object_prototype_names then Inherited key else Undefined)"

definition getUrlParams :: "string \<Rightarrow> string option \<Rightarrow> js_error + url_params" where
  "getUrlParams url key =
     (case store_all (matches url) Map.empty of
        Inl e \<Rightarrow> Inl e
      | Inr ps \<Rightarrow>
          (case key of
             None \<Rightarrow> Inr (Params ps)
           | Some k \<Rightarrow> if k \<noteq> [] then Inr (property ps k) else Inr (Params ps)))"

text \<open>
  For the statements about \<open>getUrlParams\<close>: the matches with their values decoded
  (the first value that does not decode throws), the map in which the last pair of a
  key wins, and a query string \<open>?k1=v1&...&kn=vn\<close> with its well-formed pairs.
\<close>

fun decode_all :: "(string \<times> string) list \<Rightarrow> js_error + (string \<times> string) list" where
  "decode_all [] = Inr []"
| "decode_all ((key, v) # ms) =
     (case decodeURIComponent v of
        Inl e \<Rightarrow> Inl e
      | Inr d \<Rightarrow> (case decode_all ms of Inl e \<Rightarrow> Inl e | Inr ds \<Rightarrow> Inr ((key, d) # ds)))"

definition last_wins :: "(string \<times> string) list \<Rightarrow> (string \<rightharpoonup> string)" where
  "last_wins ds = (\<lambda>k. if k = ''__proto__'' then None else map_of (rev ds) k)"

definition well_formed_pair :: "string \<times> string \<Rightarrow> bool" where
  "well_formed_pair p = (fst p \<noteq> [] \<and> list_all key_char (fst p) \<and> list_all value_char (snd p))"

definition query_string :: "(string \<times> string) list \<Rightarrow> string" where
  "query_string kvs = CHR ''?'' # join ''&'' (map (\<lambda>p. fst p @ ''='' @ snd p) kvs)"

definition at_boundary :: "string \<Rightarrow> bool" where
  "at_boundary rest = (case rest of [] \<Rightarrow> True | c # t \<Rightarrow> c = CHR ''&'')"

definition amp_pairs :: "(string \<times> string) list \<Rightarrow> string" where
  "amp_pairs kvs = concat (map (\<lambda>p. CHR ''&'' # fst p @ CHR ''='' # snd p) kvs)"

text \<open>
  The parser as the specification words it: the pairs \<open>key=value\<close> are the pieces of
  the input between the separators \<open>&\<close> and \<open>?\<close>, each value is percent-decoded, a
  later pair overwrites an earlier one, and a key that is asked for and absent gives
  \<open>undefined\<close>.
\<close>

definition spec_pairs :: "string \<Rightarrow> (string \<times> string) list" where
  "spec_pairs url =
     map (\<lambda>piece. (takeWhile (\<lambda>c. c \<noteq> CHR ''='') piece,
                     drop 1 (dropWhile (\<lambda>c. c \<noteq> CHR ''='') piece)))
       (filter (\<lambda>piece. CHR ''='' \<in> set piece \<and> takeWhile (\<lambda>c. c \<noteq> CHR ''='') piece \<noteq> [])
          (concat (map (split_on CHR ''&'') (split_on CHR ''?'' url))))"

definition parseURLParams_spec :: "string \<Rightarrow> string option \<Rightarrow> js_error + url_params" where
  "parseURLParams_spec url key =
     (case decode_all (spec_pairs url) of
        Inl e \<Rightarrow> Inl e
      | Inr ds \<Rightarrow>
          (case key of
             None \<Rightarrow> Inr (Params (map_of (rev ds)))
           | Some k \<Rightarrow>
               (case map_of (rev ds) k of Some v \<Rightarrow> Inr (Own v) | None \<Rightarrow> Inr Undefined)))"

section \<open>Invariants of the dispatcher\<close>

text \<open>
  Between two events the dispatcher is serial: while the queue is active exactly one
  thing is outstanding, a call in flight or a timeout, and while it is not active
  nothing is outstanding, the queue is empty and the rate-limiting flag is clear.
  \<open>pending\<close> are the descriptors still to be answered and \<open>busy\<close> counts what is
  outstanding or queued.
\<close>

definition serial :: "'p state \<Rightarrow> bool" where
  "serial s =
     (if iNatAPIQueued s then length (in_flight s) + length (timers s) = 1
      else in_flight s = [] \<and> timers s = [] \<and> iNatAPIQueue s = [] \<and> \<not> iNatAPIRateLimiting s)"

definition pending :: "'p state \<Rightarrow> 'p request list" where
  "pending s = in_flight s @ iNatAPIQueue s"

definition busy :: "'p state \<Rightarrow> nat" where
  "busy s = length (in_flight s) + length (timers s) + length (iNatAPIQueue s)"

text \<open>
  The URL as the specification words it: the \<open>fields\<close> parameter is appended for
  version \<open>v2\<close> when \<open>fields\<close> is present and not empty, and its value is the
  encoding of \<open>fields\<close> by the structured parameter encoder.
\<close>

definition encoded :: "string \<Rightarrow> string" where
  "encoded f = (case toRISON (JStr f) of Inr (JStr e) \<Rightarrow> e | _ \<Rightarrow> f)"

definition request_url_spec :: "('p \<Rightarrow> string) \<Rightarrow> 'p request \<Rightarrow> string" where
  "request_url_spec jq_param request =
     (let url = join ''/'' [base_url, apiVersion request, endpoint request];
          url = (case params request of
                   Some p \<Rightarrow> url @ ''?'' @ jq_param p
                 | None \<Rightarrow> url)
      in case req_fields request of
           None \<Rightarrow> url
         | Some f \<Rightarrow>
             if apiVersion request = ''v2'' \<and> f \<noteq> []
             then url @ (case params request of Some p \<Rightarrow> ''&'' | None \<Rightarrow> ''?'')
                      @ ''fields='' @ encoded f
             else url)"

section \<open>Inputs for the examples\<close>

text \<open>
  Concrete descriptors and a concrete \<open>$.param\<close> for the statements that are
  evaluated: a \<open>GET\<close> of \<open>v1/observations\<close> without parameters, with the callbacks
  numbered \<open>n\<close>, and a \<open>params\<close> type with one value whose query string is empty.
\<close>

definition example_request :: "nat \<Rightarrow> unit request" where
  "example_request n =
     \<lparr>http_method = ''GET'', apiVersion = ''v1'', endpoint = ''observations'',
      params = None, req_fields = None, headers = NoHeaders, callbacks = Application n\<rparr>"

definition example_param :: "unit \<Rightarrow> string" where
  "example_param p = []"

definition example_events :: "unit event list" where
  "example_events =
     [Queue (example_request 1), CheckAuthentication (Some ''token'') 0,
      Queue (example_request 2)]"

text \<open>
  A configuration with a threshold of one request, a burst of \<open>n\<close> calls of
  \<open>queueINatRequest\<close>, the states during and after a successful verification of a
  token, and the state in which the last call of a burst of four has been answered
  under that configuration: the rate-limiting flag is set, the queue is empty and a
  timeout is pending.
\<close>

definition strict_options :: apiOptions where
  "strict_options = \<lparr>APITimeout = 1000, RequestsPerMinute = 1\<rparr>"

definition burst :: "nat \<Rightarrow> unit event list" where
  "burst n = map (\<lambda>k. Queue (example_request k)) [0..<n]"

definition probing :: "unit state" where
  "probing =
     run apiOptions_default example_param [CheckAuthentication (Some ''token'') 0] initial"

definition authorized :: "unit state" where
  "authorized =
     run apiOptions_default example_param
       [CheckAuthentication (Some ''token'') 0, Completes 0 (Success ''alice'')] initial"

definition cooling :: "unit state" where
  "cooling =
     run strict_options example_param
       (burst 4 @ rounds [Failure, Failure, Failure] @ [Completes 0 Failure]) initial"

section \<open>Properties of the encoder\<close>

lemma toRISON_examples:
  "toRISON (JObj [(''a'', JNum ''1''), (''b'', JNum ''2'')]) = Inr (JStr ''(a:!t,b:!t)'')"
  "toRISON (JArr [JStr ''x'', JStr ''y'']) = Inr (JStr ''(x:!t,y:!t)'')"
  "toRISON (JStr ''p,q'') = Inr (JStr ''(p:!t,q:!t)'')"
  "toRISON (JNum ''42'') = Inr (JBool False)"
  by (simp_all add: rison_of_array_def has_own_def)

lemma toRISON_shadowed_examples:
  "toRISON (JObj [(''constructor'', JNull)]) = Inr (JBool False)"
  "toRISON (JObj [(''constructor'', JNum ''1'')]) = Inr (JBool False)"
  "toRISON (JArr [JObj [(''toString'', JNum ''1'')]]) = Inl TypeError"
  "toRISON (JObj [(''a'', JObj [(''constructor'', JNum ''1'')])]) = Inr (JStr ''(a:false)'')"
  "toRISON (JArr [JObj [], JNull, JArr [JNum ''1'', JNull, JStr ''x'']])
     = Inr (JStr ''([object Object]:!t,:!t,1,,x:!t)'')"
  by (simp_all add: rison_of_array_def has_own_def)

lemma toRISON_comma_string:
  "CHR '','' \<in> set s \<Longrightarrow> toRISON (JStr s) = toRISON (JArr (map JStr (split_on CHR '','' s)))"
  by simp




lemma rison_of_array_result: "rison_of_array xs = Inr r \<Longrightarrow> \<exists>s. r = JStr s"
  by (auto simp: rison_of_array_def split: sum.splits)

lemma toRISON_result: "toRISON v = Inr r \<Longrightarrow> (\<exists>s. r = JStr s) \<or> r = JBool False"
  by (cases v) (auto split: sum.splits if_splits dest: rison_of_array_result)



section \<open>Properties of the dispatcher\<close>

subsection \<open>One thing at a time, in order\<close>

lemma fired_append: "fired (xs @ ys) = fired xs @ fired ys"
  by (induction xs rule: fired.induct) simp_all

lemma pushed_append: "pushed (xs @ ys) = pushed xs @ pushed ys"
  by (induction xs rule: pushed.induct) simp_all

lemma serial_initial: "serial initial"
  by (simp add: serial_def initial_def)

lemma without_single: "without 0 [x] = []"
  by (simp add: without_def)

lemma serial_in_flight:
  assumes "serial s" and "i < length (in_flight s)"
  obtains x where "in_flight s = [x]" and "timers s = []" and "i = 0" and "iNatAPIQueued s"
proof -
  from assms have q: "iNatAPIQueued s" and l: "length (in_flight s) + length (timers s) = 1"
    by (auto simp: serial_def split: if_splits)
  from l assms(2) have "length (timers s) = 0" and "length (in_flight s) = 1" by arith+
  then have "timers s = []" and "length (in_flight s) = 1" by simp_all
  moreover from this obtain x where "in_flight s = [x]" by (cases "in_flight s") auto
  ultimately show thesis using that q assms(2) by auto
qed

lemma serial_timer:
  assumes "serial s" and "i < length (timers s)"
  obtains d where "timers s = [d]" and "in_flight s = []" and "i = 0" and "iNatAPIQueued s"
proof -
  from assms have q: "iNatAPIQueued s" and l: "length (in_flight s) + length (timers s) = 1"
    by (auto simp: serial_def split: if_splits)
  from l assms(2) have "length (in_flight s) = 0" and "length (timers s) = 1" by arith+
  then have "in_flight s = []" and "length (timers s) = 1" by simp_all
  moreover from this obtain d where "timers s = [d]" by (cases "timers s") auto
  ultimately show thesis using that q assms(2) by auto
qed

lemma serial_makeINatRequest:
  "in_flight s = [] \<Longrightarrow> timers s = [] \<Longrightarrow> iNatAPIQueued s \<or> (iNatAPIQueue s = [] \<and> \<not> iNatAPIRateLimiting s) \<Longrightarrow> serial (makeINatRequest opts jq s)"
  by (auto simp: serial_def makeINatRequest_def Let_def split: list.splits)

lemma serial_step: "serial s \<Longrightarrow> serial (step opts jq s e)"
proof (cases e)
  case (Queue r)
  then show "serial s \<Longrightarrow> ?thesis"
    by (auto simp: serial_def queueINatRequest_def makeINatRequest_def Let_def split: list.splits if_splits)
next
  case (CheckAuthentication tok cb)
  then show "serial s \<Longrightarrow> ?thesis"
    by (auto simp: serial_def checkAuthentication_def queueINatRequest_def makeINatRequest_def Let_def
        split: list.splits if_splits option.splits)
next
  case (Completes i resp)
  assume a: "serial s"
  show ?thesis
  proof (cases "i < length (in_flight s)")
    case True
    with a obtain x where x: "in_flight s = [x]" "timers s = []" "i = 0" and q: "iNatAPIQueued s"
      by (rule serial_in_flight)
    with Completes show ?thesis
      by (auto simp: serial_def complete_def run_callback_def makeINatRequest_def Let_def without_def
          split: list.splits response.splits callbacks.splits)
  next
    case False
    with a Completes show ?thesis by simp
  qed
next
  case (TimerFires i)
  assume a: "serial s"
  show ?thesis
  proof (cases "i < length (timers s)")
    case True
    with a obtain x where x: "timers s = [x]" "in_flight s = []" "i = 0" and q: "iNatAPIQueued s"
      by (rule serial_timer)
    with TimerFires show ?thesis
      by (auto simp: serial_def makeINatRequest_def Let_def without_def split: list.splits)
  next
    case False
    with a TimerFires show ?thesis by simp
  qed
qed

lemma order_step:
  assumes "serial s"
  shows "fired (happened (step opts jq s e)) @ pending (step opts jq s e)
         = fired (happened s) @ pending s @ pushed [e]"
proof (cases e)
  case (Queue r)
  with assms show ?thesis
    by (auto simp: serial_def pending_def queueINatRequest_def makeINatRequest_def Let_def fired_append
        split: list.splits if_splits)
next
  case (CheckAuthentication tok cb)
  with assms show ?thesis
    by (auto simp: serial_def pending_def checkAuthentication_def truthy_def queueINatRequest_def makeINatRequest_def Let_def fired_append
        split: list.splits if_splits option.splits)
next
  case (Completes i resp)
  show ?thesis
  proof (cases "i < length (in_flight s)")
    case True
    with assms obtain x where x: "in_flight s = [x]" "timers s = []" "i = 0" and q: "iNatAPIQueued s"
      by (rule serial_in_flight)
    with Completes show ?thesis
      by (auto simp: pending_def complete_def run_callback_def makeINatRequest_def Let_def without_def fired_append
          split: list.splits response.splits callbacks.splits)
  next
    case False
    with Completes show ?thesis by simp
  qed
next
  case (TimerFires i)
  show ?thesis
  proof (cases "i < length (timers s)")
    case True
    with assms obtain x where x: "timers s = [x]" "in_flight s = []" "i = 0" and q: "iNatAPIQueued s"
      by (rule serial_timer)
    with TimerFires show ?thesis
      by (auto simp: pending_def makeINatRequest_def Let_def without_def fired_append split: list.splits)
  next
    case False
    with TimerFires show ?thesis by simp
  qed
qed

lemma run_Nil: "run opts jq [] s = s" by (simp add: run_def)
lemma run_Cons: "run opts jq (e # evs) s = run opts jq evs (step opts jq s e)" by (simp add: run_def)
lemma run_append: "run opts jq (xs @ ys) s = run opts jq ys (run opts jq xs s)" by (simp add: run_def)

lemma serial_run: "serial s \<Longrightarrow> serial (run opts jq evs s)"
  by (induction evs arbitrary: s) (simp_all add: run_Nil run_Cons serial_step)

lemma order_run:
  "serial s \<Longrightarrow> fired (happened (run opts jq evs s)) @ pending (run opts jq evs s)
     = fired (happened s) @ pending s @ pushed evs"
proof (induction evs arbitrary: s)
  case Nil
  then show ?case by (simp add: run_Nil)
next
  case (Cons e evs)
  have "fired (happened (run opts jq (e # evs) s)) @ pending (run opts jq (e # evs) s)
      = fired (happened (step opts jq s e)) @ pending (step opts jq s e) @ pushed evs"
    using Cons.IH [OF serial_step [OF Cons.prems]] by (simp add: run_Cons)
  also have "\<dots> = (fired (happened s) @ pending s @ pushed [e]) @ pushed evs"
    using order_step [OF Cons.prems, of opts jq e] by simp
  also have "\<dots> = fired (happened s) @ pending s @ pushed (e # evs)"
    using pushed_append [of "[e]" evs] by simp
  finally show ?case .
qed

subsection \<open>Every descriptor is answered\<close>

lemma busy_zero: "serial s \<Longrightarrow> busy s = 0 \<Longrightarrow> \<not> iNatAPIQueued s \<and> pending s = []"
  by (auto simp: serial_def busy_def pending_def split: if_splits)

lemma idle_step_Completes: "in_flight s = [] \<Longrightarrow> step opts jq s (Completes i r) = s"
  by simp

lemma idle_step_TimerFires: "timers s = [] \<Longrightarrow> step opts jq s (TimerFires i) = s"
  by simp

lemma busy_makeINatRequest:
  "busy (makeINatRequest opts jq s) = busy s"
  by (auto simp: busy_def makeINatRequest_def Let_def split: list.splits)

lemma timers_makeINatRequest: "timers (makeINatRequest opts jq s) = timers s"
  by (auto simp: makeINatRequest_def Let_def split: list.splits)

lemma busy_round:
  assumes "serial s"
  shows "busy (step opts jq (step opts jq s (Completes 0 r)) (TimerFires 0)) \<le> busy s - 1"
proof (cases "in_flight s")
  case Nil
  show ?thesis
  proof (cases "timers s")
    case n: Nil
    with Nil assms have "busy s = 0"
      by (auto simp: serial_def busy_def split: if_splits)
    with Nil n show ?thesis by simp
  next
    case (Cons d ds)
    with assms obtain "timers s = [d]"
      by (auto elim: serial_timer [where i = 0])
    with Nil show ?thesis
      by (simp add: busy_makeINatRequest without_def) (simp add: busy_def)
  qed
next
  case (Cons x xs)
  with assms have x: "in_flight s = [x]" and t: "timers s = []"
    by (auto elim: serial_in_flight [where i = 0])
  let ?s1 = "run_callback x r (s\<lparr>in_flight := []\<rparr>)"
  have s1: "in_flight ?s1 = []" "timers ?s1 = []" "iNatAPIQueue ?s1 = iNatAPIQueue s"
    "iNatAPIRateLimiting ?s1 = iNatAPIRateLimiting s"
    by (auto simp: run_callback_def Let_def t split: response.splits callbacks.splits)
  have c: "step opts jq s (Completes 0 r) = complete opts jq ?s1"
    using x by (simp add: without_def)
  show ?thesis
  proof (cases "iNatAPIRateLimiting s")
    case True
    let ?t = "complete opts jq ?s1"
    have t: "timers ?t = [APITimeout opts]" "in_flight ?t = []"
      "iNatAPIQueue ?t = iNatAPIQueue s"
      using True by (simp_all add: complete_def s1)
    have "busy (step opts jq ?t (TimerFires 0)) = busy (?t\<lparr>timers := []\<rparr>)"
      by (simp add: t without_def busy_makeINatRequest)
    also have "\<dots> = length (iNatAPIQueue s)" by (simp add: busy_def t)
    finally show ?thesis unfolding c by (simp add: busy_def x t)
  next
    case False
    then have "complete opts jq ?s1 = makeINatRequest opts jq ?s1"
      by (simp add: complete_def s1)
    moreover have "timers (makeINatRequest opts jq ?s1) = []"
      by (simp add: timers_makeINatRequest s1)
    ultimately show ?thesis unfolding c
      by (simp add: busy_makeINatRequest) (simp add: busy_def s1 x t)
  qed
qed

lemma busy_rounds: "serial s \<Longrightarrow> busy (run opts jq (rounds rs) s) \<le> busy s - length rs"
proof (induction rs arbitrary: s)
  case Nil
  then show ?case by (simp add: rounds_def run_Nil)
next
  case (Cons r rs)
  let ?s1 = "step opts jq (step opts jq s (Completes 0 r)) (TimerFires 0)"
  have "serial ?s1" using Cons.prems by (intro serial_step)
  then have "busy (run opts jq (rounds rs) ?s1) \<le> busy ?s1 - length rs" by (rule Cons.IH)
  moreover have "busy ?s1 \<le> busy s - 1" using Cons.prems by (rule busy_round)
  moreover have "run opts jq (rounds (r # rs)) s = run opts jq (rounds rs) ?s1"
    by (simp add: rounds_def run_Cons)
  ultimately show ?case by simp
qed

lemma pushed_rounds: "pushed (rounds rs) = []"
  by (induction rs) (simp_all add: rounds_def)

lemma drained:
  assumes "serial s" and "busy s \<le> length rs"
  shows "fired (happened (run opts jq (rounds rs) s)) = fired (happened s) @ pending s"
    and "\<not> iNatAPIQueued (run opts jq (rounds rs) s)"
proof -
  let ?s' = "run opts jq (rounds rs) s"
  have "busy ?s' = 0" using busy_rounds [OF assms(1), of opts jq rs] assms(2) by simp
  moreover have "serial ?s'" using assms(1) by (rule serial_run)
  ultimately have z: "\<not> iNatAPIQueued ?s'" "pending ?s' = []" using busy_zero by blast+
  from z(1) show "\<not> iNatAPIQueued ?s'" .
  from order_run [OF assms(1), of opts jq "rounds rs"] z(2)
  show "fired (happened ?s') = fired (happened s) @ pending s"
    by (simp add: pushed_rounds)
qed

section \<open>Properties of the parser\<close>


declare matches.simps [simp del] decodeURIComponent.simps [simp del]

lemma decodeURIComponent_no_TypeError: "decodeURIComponent s \<noteq> Inl TypeError"
proof (induction "length s" arbitrary: s rule: less_induct)
  case less
  show ?case
  proof (cases s)
    case Nil
    then show ?thesis by (simp add: decodeURIComponent.simps)
  next
    case (Cons c cs)
    have IH: "decodeURIComponent t \<noteq> Inl TypeError" if "length t \<le> length cs" for t
      using less [of t] that Cons by simp
    have e1: "length rest \<le> length cs" if "escape (c # cs) = Some (b, rest)" for b rest
      using escape_shorter [OF that] by simp
    have e2: "length rest' \<le> length cs"
      if "escape (c # cs) = Some (b, rest)" and "escapes n rest = Some (bs, rest')"
      for b rest n bs rest'
      using e1 [OF that(1)] escapes_shorter [OF that(2)] by simp
    show ?thesis
    proof (cases "c = CHR ''%''")
      case False
      with IH [of cs] show ?thesis
        unfolding Cons by (auto simp: decodeURIComponent.simps split: sum.splits)
    next
      case True
      show ?thesis
      proof (cases "escape (c # cs)")
        case None
        with True show ?thesis unfolding Cons by (simp add: decodeURIComponent.simps)
      next
        case (Some br)
        obtain b rest where br: "br = (b, rest)" by (cases br)
        note e = Some [unfolded br]
        have r: "decodeURIComponent rest \<noteq> Inl TypeError" using IH [OF e1 [OF e]] .
        have r': "decodeURIComponent rest' \<noteq> Inl TypeError"
          if "escapes n rest = Some (bs, rest')" for n bs rest'
          using IH [OF e2 [OF e that]] .
        show ?thesis
          unfolding Cons using True e r r'
          by (auto simp: decodeURIComponent.simps Let_def
              split: sum.splits option.splits prod.splits)
      qed
    qed
  qed
qed

lemma decodeURIComponent_error: "decodeURIComponent s = Inl e \<Longrightarrow> e = URIError"
  using decodeURIComponent_no_TypeError [of s] by (cases e) auto

lemma store_all_decode_all:
  "store_all ms ps =
     (case decode_all ms of
        Inl e \<Rightarrow> Inl e
      | Inr ds \<Rightarrow>
          Inr (\<lambda>k. if k = ''__proto__'' then ps k
                   else (case map_of (rev ds) k of Some d \<Rightarrow> Some d | None \<Rightarrow> ps k)))"
proof (induction ms arbitrary: ps)
  case Nil
  show ?case by (auto simp: fun_eq_iff)
next
  case (Cons p ms)
  obtain k v where p: "p = (k, v)" by (cases p)
  show ?case
    unfolding p
    by (auto simp: Cons.IH assign_def fun_eq_iff map_add_def split: sum.splits option.splits)
qed

lemma store_all_empty:
  "store_all ms Map.empty =
     (case decode_all ms of Inl e \<Rightarrow> Inl e | Inr ds \<Rightarrow> Inr (last_wins ds))"
  by (auto simp: store_all_decode_all last_wins_def fun_eq_iff split: sum.splits option.splits)

lemma decode_all_error:
  "(k, v) \<in> set ms \<Longrightarrow> decodeURIComponent v = Inl e \<Longrightarrow> decode_all ms = Inl URIError"
proof (induction ms)
  case Nil
  then show ?case by simp
next
  case (Cons p ms)
  obtain k' v' where p: "p = (k', v')" by (cases p)
  show ?case
  proof (cases "decodeURIComponent v'")
    case (Inl a)
    then show ?thesis using decodeURIComponent_error [OF Inl] by (simp add: p)
  next
    case (Inr d)
    with Cons p have "decode_all ms = Inl URIError" by auto
    with Inr show ?thesis by (simp add: p)
  qed
qed

lemma takeWhile_key:
  "list_all key_char k \<Longrightarrow> takeWhile key_char (k @ CHR ''='' # t) = k"
  by (induction k) (simp_all add: key_char_def)

lemma dropWhile_key:
  "list_all key_char k \<Longrightarrow> dropWhile key_char (k @ CHR ''='' # t) = CHR ''='' # t"
  by (induction k) (simp_all add: key_char_def)

lemma takeWhile_value:
  "list_all value_char v \<Longrightarrow> at_boundary rest \<Longrightarrow> takeWhile value_char (v @ rest) = v"
  by (induction v) (auto simp: value_char_def at_boundary_def split: list.splits)

lemma dropWhile_value:
  "list_all value_char v \<Longrightarrow> at_boundary rest \<Longrightarrow> dropWhile value_char (v @ rest) = rest"
  by (induction v) (auto simp: value_char_def at_boundary_def split: list.splits)

lemma match_pair_well_formed:
  assumes "well_formed_pair (k, v)" and "at_boundary rest"
  shows "match_pair (k @ CHR ''='' # v @ rest) = Some (k, v, rest)"
  using assms
  by (simp add: match_pair_def well_formed_pair_def takeWhile_key dropWhile_key
      takeWhile_value dropWhile_value)

lemma match_here_well_formed:
  assumes "well_formed_pair (k, v)" and "at_boundary rest"
    and "c = CHR ''?'' \<or> c = CHR ''&''"
  shows "match_here (c # k @ CHR ''='' # v @ rest) = Some (k, v, rest)"
  using assms(3) match_pair_well_formed [OF assms(1,2)] by (auto simp: match_here_def)

lemma amp_pairs_head: "at_boundary (amp_pairs kvs)"
  by (cases kvs) (simp_all add: amp_pairs_def at_boundary_def)

lemma matches_amp_pairs:
  "list_all well_formed_pair kvs \<Longrightarrow> matches (amp_pairs kvs) = kvs"
proof (induction kvs)
  case Nil
  show ?case by (simp add: amp_pairs_def matches.simps)
next
  case (Cons p kvs)
  obtain k v where p: "p = (k, v)" by (cases p)
  from Cons.prems p have w: "well_formed_pair (k, v)" by simp
  have "match_here (CHR ''&'' # k @ CHR ''='' # v @ amp_pairs kvs) = Some (k, v, amp_pairs kvs)"
    using w amp_pairs_head by (rule match_here_well_formed) simp
  moreover have "amp_pairs (p # kvs) = CHR ''&'' # k @ CHR ''='' # v @ amp_pairs kvs"
    by (simp add: amp_pairs_def p)
  ultimately show ?case using Cons by (simp add: matches.simps p)
qed

lemma join_amp:
  "join ''&'' (map (\<lambda>p. fst p @ ''='' @ snd p) (p # kvs))
     = fst p @ CHR ''='' # snd p @ amp_pairs kvs"
  by (induction kvs arbitrary: p) (simp_all add: amp_pairs_def)

lemma matches_query_string:
  assumes "list_all well_formed_pair kvs"
  shows "matches (query_string kvs) = kvs"
proof (cases kvs)
  case Nil
  then show ?thesis
    by (simp add: query_string_def matches.simps match_here_def match_pair_def)
next
  case (Cons p ps)
  obtain k v where p: "p = (k, v)" by (cases p)
  from assms Cons p have w: "well_formed_pair (k, v)" and ws: "list_all well_formed_pair ps"
    by simp_all
  have q: "query_string kvs = CHR ''?'' # k @ CHR ''='' # v @ amp_pairs ps"
    unfolding query_string_def Cons join_amp by (simp add: p)
  have "match_here (CHR ''?'' # k @ CHR ''='' # v @ amp_pairs ps) = Some (k, v, amp_pairs ps)"
    using w amp_pairs_head by (rule match_here_well_formed) simp
  then show ?thesis
    unfolding q using matches_amp_pairs [OF ws] by (simp add: matches.simps Cons p)
qed

lemma getUrlParams_matches:
  "getUrlParams url key =
     (case decode_all (matches url) of
        Inl e \<Rightarrow> Inl e
      | Inr ds \<Rightarrow>
          (case key of
             None \<Rightarrow> Inr (Params (last_wins ds))
           | Some k \<Rightarrow>
               if k = [] then Inr (Params (last_wins ds))
               else Inr (property (last_wins ds) k)))"
  by (simp add: getUrlParams_def store_all_empty split: sum.splits option.splits)

lemma match_pair_iff:
  "(match_pair s = Some (k, v, rest)) =
     (s = k @ CHR ''='' # v @ rest \<and> k \<noteq> [] \<and> list_all key_char k
      \<and> list_all value_char v \<and> at_boundary rest)"
proof
  assume a: "match_pair s = Some (k, v, rest)"
  then obtain t where t: "dropWhile key_char s = CHR ''='' # t"
    and k: "k = takeWhile key_char s" "k \<noteq> []"
    and v: "v = takeWhile value_char t" and r: "rest = dropWhile value_char t"
    by (auto simp: match_pair_def Let_def split: list.splits if_splits)
  have "s = takeWhile key_char s @ dropWhile key_char s" by simp
  also have "\<dots> = k @ CHR ''='' # (takeWhile value_char t @ dropWhile value_char t)"
    unfolding t k by simp
  finally have s: "s = k @ CHR ''='' # v @ rest" unfolding v r by simp
  have kk: "list_all key_char k" unfolding k by (auto simp: list_all_iff dest: set_takeWhileD)
  have vv: "list_all value_char v" unfolding v by (auto simp: list_all_iff dest: set_takeWhileD)
  have b: "at_boundary rest"
  proof (cases rest)
    case Nil
    then show ?thesis by (simp add: at_boundary_def)
  next
    case (Cons c cs)
    then have "\<not> value_char (hd (dropWhile value_char t))"
      using r hd_dropWhile [of value_char t] by auto
    with Cons r show ?thesis by (simp add: at_boundary_def value_char_def)
  qed
  from s k(2) kk vv b
  show "s = k @ CHR ''='' # v @ rest \<and> k \<noteq> [] \<and> list_all key_char k
      \<and> list_all value_char v \<and> at_boundary rest" by simp
next
  assume "s = k @ CHR ''='' # v @ rest \<and> k \<noteq> [] \<and> list_all key_char k
      \<and> list_all value_char v \<and> at_boundary rest"
  then show "match_pair s = Some (k, v, rest)"
    using match_pair_well_formed [of k v rest] by (simp add: well_formed_pair_def)
qed

lemma decodeURIComponent_stray_percent:
  "CHR ''%'' \<notin> set pre \<Longrightarrow> escape (CHR ''%'' # rest) = None \<Longrightarrow>
     decodeURIComponent (pre @ CHR ''%'' # rest) = Inl URIError"
  by (induction pre) (auto simp: decodeURIComponent.simps)

section \<open>Properties of the flags\<close>

lemma makeINatRequest_flags:
  "iNatAPIRateLimiting (makeINatRequest opts jq s)
     = (iNatAPIQueue s \<noteq> []
        \<and> (iNatAPIRateLimiting s \<or> RequestsPerMinute opts < length (tl (iNatAPIQueue s))))"
  "iNatAPIQueued (makeINatRequest opts jq s) = (iNatAPIQueue s \<noteq> [] \<and> iNatAPIQueued s)"
  "iNatAPIQueue (makeINatRequest opts jq s) = tl (iNatAPIQueue s)"
  by (auto simp: makeINatRequest_def Let_def split: list.splits)

lemma makeINatRequest_auth:
  "Authorization (makeINatRequest opts jq s) = Authorization s"
  "iNatAuthorized (makeINatRequest opts jq s) = iNatAuthorized s"
  by (auto simp: makeINatRequest_def Let_def split: list.splits)

lemma makeINatRequest_happened:
  "\<exists>more. happened (makeINatRequest opts jq s) = happened s @ more"
  by (auto simp: makeINatRequest_def Let_def split: list.splits)

lemma complete_auth:
  "Authorization (complete opts jq s) = Authorization s"
  "iNatAuthorized (complete opts jq s) = iNatAuthorized s"
  by (simp_all add: complete_def makeINatRequest_auth)

lemma complete_happened:
  "\<exists>more. happened (complete opts jq s) = happened s @ more"
  using makeINatRequest_happened [of opts jq s] by (simp add: complete_def)

lemma run_callback_flags:
  "iNatAPIRateLimiting (run_callback x r s) = iNatAPIRateLimiting s"
  "iNatAPIQueued (run_callback x r s) = iNatAPIQueued s"
  "iNatAPIQueue (run_callback x r s) = iNatAPIQueue s"
  "timers (run_callback x r s) = timers s"
  "in_flight (run_callback x r s) = in_flight s"
  by (auto simp: run_callback_def Let_def split: response.splits callbacks.splits)

lemma queueINatRequest_flags:
  "iNatAPIQueued (queueINatRequest opts jq r s)"
  "iNatAPIRateLimiting (queueINatRequest opts jq r s)
     = (iNatAPIRateLimiting s
        \<or> (\<not> iNatAPIQueued s \<and> RequestsPerMinute opts < length (iNatAPIQueue s)))"
  "iNatAPIQueue (queueINatRequest opts jq r s)
     = (if iNatAPIQueued s then iNatAPIQueue s @ [r] else tl (iNatAPIQueue s @ [r]))"
  by (auto simp: queueINatRequest_def Let_def makeINatRequest_flags)

lemma flag_set_step:
  assumes "\<not> iNatAPIRateLimiting t" and "iNatAPIRateLimiting (step opts jq t e)"
  shows "RequestsPerMinute opts < length (iNatAPIQueue (step opts jq t e))"
  using assms
  by (cases e)
     (auto simp: queueINatRequest_flags checkAuthentication_def makeINatRequest_flags
        complete_def run_callback_flags split: option.splits if_splits)

lemma flag_cleared_step:
  assumes "iNatAPIRateLimiting u" and "\<not> iNatAPIRateLimiting (step opts jq u e)"
  shows "iNatAPIQueue u = [] \<and> (\<exists>i. e = TimerFires i)"
  using assms
  by (cases e)
     (auto simp: queueINatRequest_flags checkAuthentication_def makeINatRequest_flags
        complete_def run_callback_flags split: option.splits if_splits)

lemma queued_cleared_step:
  assumes "iNatAPIQueued w" and "\<not> iNatAPIQueued (step opts jq w e)"
  shows "iNatAPIQueue w = []
    \<and> ((\<exists>i. e = TimerFires i) \<or> (\<exists>i r. e = Completes i r \<and> \<not> iNatAPIRateLimiting w))"
  using assms
  by (cases e)
     (auto simp: queueINatRequest_flags checkAuthentication_def makeINatRequest_flags
        complete_def run_callback_flags split: option.splits if_splits)

lemma flag_persists_step:
  assumes "iNatAPIRateLimiting s"
  shows "iNatAPIRateLimiting (step opts jq s e) \<or> \<not> iNatAPIQueued (step opts jq s e)"
  using assms
  by (cases e)
     (auto simp: queueINatRequest_flags checkAuthentication_def makeINatRequest_flags
        complete_def run_callback_flags split: option.splits if_splits)

lemma delays_append: "delays (xs @ ys) = delays xs @ delays ys"
  by (induction xs rule: delays.induct) simp_all

lemma run_callback_delays:
  "delays (happened (run_callback x r s)) = delays (happened s)"
  by (auto simp: run_callback_def Let_def delays_append split: response.splits callbacks.splits)

lemma makeINatRequest_delays:
  "delays (happened (makeINatRequest opts jq s)) = delays (happened s)"
  by (auto simp: makeINatRequest_def Let_def delays_append split: list.splits)

lemma makeINatRequest_in_flight:
  "in_flight (makeINatRequest opts jq s) = in_flight s @ take 1 (iNatAPIQueue s)"
  by (auto simp: makeINatRequest_def Let_def split: list.splits)

lemma completes_cooldown:
  assumes "serial s" and "in_flight s \<noteq> []" and "iNatAPIRateLimiting s"
  shows "timers (step opts jq s (Completes 0 r)) = [APITimeout opts]"
    and "in_flight (step opts jq s (Completes 0 r)) = []"
    and "iNatAPIQueue (step opts jq s (Completes 0 r)) = iNatAPIQueue s"
    and "delays (happened (step opts jq s (Completes 0 r)))
           = delays (happened s) @ [APITimeout opts]"
    and "iNatAPIQueued (step opts jq s (Completes 0 r))"
proof -
  from assms(1,2) obtain x where x: "in_flight s = [x]" "timers s = []" "iNatAPIQueued s"
    by (auto elim: serial_in_flight [where i = 0])
  let ?s1 = "run_callback x r (s\<lparr>in_flight := []\<rparr>)"
  have c: "step opts jq s (Completes 0 r)
      = ?s1\<lparr>timers := timers ?s1 @ [APITimeout opts],
             happened := happened ?s1 @ [SetTimeout (APITimeout opts)]\<rparr>"
    using x assms(3) by (simp add: without_def complete_def run_callback_flags)
  show "timers (step opts jq s (Completes 0 r)) = [APITimeout opts]"
    and "in_flight (step opts jq s (Completes 0 r)) = []"
    and "iNatAPIQueue (step opts jq s (Completes 0 r)) = iNatAPIQueue s"
    and "delays (happened (step opts jq s (Completes 0 r)))
           = delays (happened s) @ [APITimeout opts]"
    and "iNatAPIQueued (step opts jq s (Completes 0 r))"
    unfolding c using x by (simp_all add: run_callback_flags run_callback_delays delays_append)
qed

lemma waits_for_timer:
  assumes "in_flight s = []" and "iNatAPIQueued s" and "\<forall>i. e \<noteq> TimerFires i"
  shows "in_flight (step opts jq s e) = []"
  using assms
  by (cases e) (auto simp: queueINatRequest_def checkAuthentication_def Let_def split: option.splits)

lemma completes_immediately:
  assumes "serial s" and "in_flight s \<noteq> []" and "\<not> iNatAPIRateLimiting s"
  shows "timers (step opts jq s (Completes 0 r)) = []"
    and "in_flight (step opts jq s (Completes 0 r)) = take 1 (iNatAPIQueue s)"
    and "iNatAPIQueue (step opts jq s (Completes 0 r)) = tl (iNatAPIQueue s)"
    and "delays (happened (step opts jq s (Completes 0 r))) = delays (happened s)"
proof -
  from assms(1,2) obtain x where x: "in_flight s = [x]" "timers s = []" "iNatAPIQueued s"
    by (auto elim: serial_in_flight [where i = 0])
  let ?s1 = "run_callback x r (s\<lparr>in_flight := []\<rparr>)"
  have c: "step opts jq s (Completes 0 r) = makeINatRequest opts jq ?s1"
    using x assms(3) by (simp add: without_def complete_def run_callback_flags)
  show "timers (step opts jq s (Completes 0 r)) = []"
    and "in_flight (step opts jq s (Completes 0 r)) = take 1 (iNatAPIQueue s)"
    and "iNatAPIQueue (step opts jq s (Completes 0 r)) = tl (iNatAPIQueue s)"
    and "delays (happened (step opts jq s (Completes 0 r))) = delays (happened s)"
    unfolding c using x
    by (simp_all add: timers_makeINatRequest makeINatRequest_in_flight makeINatRequest_flags
        makeINatRequest_delays run_callback_flags run_callback_delays)
qed

lemma dispatched_append: "dispatched (xs @ ys) = dispatched xs @ dispatched ys"
  by (induction xs rule: dispatched.induct) simp_all

lemma run_callback_dispatched:
  "dispatched (happened (run_callback x r s)) = dispatched (happened s)"
  by (auto simp: run_callback_def Let_def dispatched_append split: response.splits callbacks.splits)

lemma makeINatRequest_dispatched:
  "dispatched (happened (makeINatRequest opts jq s))
     = dispatched (happened s) @ take 1 (iNatAPIQueue s)"
  by (auto simp: makeINatRequest_def Let_def dispatched_append split: list.splits)

lemma completes_cooldown_dispatched:
  assumes "serial s" and "in_flight s \<noteq> []" and "iNatAPIRateLimiting s"
  shows "dispatched (happened (step opts jq s (Completes 0 r))) = dispatched (happened s)"
proof -
  from assms(1,2) obtain x where x: "in_flight s = [x]" "timers s = []" "iNatAPIQueued s"
    by (auto elim: serial_in_flight [where i = 0])
  let ?s1 = "run_callback x r (s\<lparr>in_flight := []\<rparr>)"
  have c: "step opts jq s (Completes 0 r)
      = ?s1\<lparr>timers := timers ?s1 @ [APITimeout opts],
             happened := happened ?s1 @ [SetTimeout (APITimeout opts)]\<rparr>"
    using x assms(3) by (simp add: without_def complete_def run_callback_flags)
  show ?thesis unfolding c by (simp add: run_callback_dispatched dispatched_append)
qed

lemma completes_immediately_dispatched:
  assumes "serial s" and "in_flight s \<noteq> []" and "\<not> iNatAPIRateLimiting s"
  shows "dispatched (happened (step opts jq s (Completes 0 r)))
           = dispatched (happened s) @ take 1 (iNatAPIQueue s)"
proof -
  from assms(1,2) obtain x where x: "in_flight s = [x]" "timers s = []" "iNatAPIQueued s"
    by (auto elim: serial_in_flight [where i = 0])
  let ?s1 = "run_callback x r (s\<lparr>in_flight := []\<rparr>)"
  have c: "step opts jq s (Completes 0 r) = makeINatRequest opts jq ?s1"
    using x assms(3) by (simp add: without_def complete_def run_callback_flags)
  show ?thesis
    unfolding c by (simp add: makeINatRequest_dispatched run_callback_dispatched run_callback_flags)
qed

text \<open>While a timeout is pending, events other than its firing only lengthen the queue.\<close>

lemma quiet_step:
  assumes "in_flight s = []" and "iNatAPIQueued s" and "\<not> timer_event e"
  shows "in_flight (step opts jq s e) = []"
    and "iNatAPIQueued (step opts jq s e)"
    and "timers (step opts jq s e) = timers s"
    and "iNatAPIQueue (step opts jq s e) = iNatAPIQueue s @ pushed [e]"
    and "dispatched (happened (step opts jq s e)) = dispatched (happened s)"
    and "delays (happened (step opts jq s e)) = delays (happened s)"
  using assms
  by (cases e;
      auto simp: queueINatRequest_def checkAuthentication_def truthy_def Let_def
        dispatched_append delays_append split: option.splits)+

lemma quiet_run:
  assumes "in_flight s = []" and "iNatAPIQueued s" and "list_all (\<lambda>e. \<not> timer_event e) es"
  shows "in_flight (run opts jq es s) = [] \<and> iNatAPIQueued (run opts jq es s)
    \<and> timers (run opts jq es s) = timers s
    \<and> iNatAPIQueue (run opts jq es s) = iNatAPIQueue s @ pushed es
    \<and> dispatched (happened (run opts jq es s)) = dispatched (happened s)
    \<and> delays (happened (run opts jq es s)) = delays (happened s)"
  using assms
proof (induction es arbitrary: s)
  case Nil
  then show ?case by (simp add: run_Nil)
next
  case (Cons e es)
  from Cons.prems have e: "\<not> timer_event e" and es: "list_all (\<lambda>e. \<not> timer_event e) es"
    by simp_all
  note q = quiet_step [OF Cons.prems(1,2) e, of opts jq]
  from Cons.IH [OF q(1,2) es] q(3-6) pushed_append [of "[e]" es]
  show ?case by (simp add: run_Cons)
qed

lemma timer_dispatches:
  assumes "in_flight s = []" and "timers s = [d]"
  shows "in_flight (step opts jq s (TimerFires 0)) = take 1 (iNatAPIQueue s)"
    and "iNatAPIQueue (step opts jq s (TimerFires 0)) = tl (iNatAPIQueue s)"
    and "dispatched (happened (step opts jq s (TimerFires 0)))
           = dispatched (happened s) @ take 1 (iNatAPIQueue s)"
    and "timers (step opts jq s (TimerFires 0)) = []"
  using assms
  by (simp_all add: without_def makeINatRequest_in_flight makeINatRequest_flags
      makeINatRequest_dispatched timers_makeINatRequest)

lemma flag_persists_run:
  "iNatAPIRateLimiting s \<Longrightarrow>
     iNatAPIRateLimiting (run opts jq es s)
     \<or> (\<exists>k \<le> length es. \<not> iNatAPIQueued (run opts jq (take k es) s))"
proof (induction es arbitrary: s)
  case Nil
  then show ?case by (simp add: run_Nil)
next
  case (Cons e es)
  show ?case
  proof (cases "iNatAPIRateLimiting (step opts jq s e)")
    case True
    from Cons.IH [OF True]
    show ?thesis
    proof
      assume "iNatAPIRateLimiting (run opts jq es (step opts jq s e))"
      then show ?thesis by (simp add: run_Cons)
    next
      assume "\<exists>k \<le> length es. \<not> iNatAPIQueued (run opts jq (take k es) (step opts jq s e))"
      then obtain k where k: "k \<le> length es"
        "\<not> iNatAPIQueued (run opts jq (take k es) (step opts jq s e))" by blast
      then have "Suc k \<le> length (e # es)"
        "\<not> iNatAPIQueued (run opts jq (take (Suc k) (e # es)) s)"
        by (simp_all add: run_Cons)
      then show ?thesis by blast
    qed
  next
    case False
    with flag_persists_step [OF Cons.prems, of opts jq e]
    have "\<not> iNatAPIQueued (step opts jq s e)" by simp
    then have "\<not> iNatAPIQueued (run opts jq (take 1 (e # es)) s)"
      by (simp add: run_Cons run_Nil)
    moreover have "1 \<le> length (e # es)" by simp
    ultimately show ?thesis by blast
  qed
qed

section \<open>The claims\<close>

subsection \<open>The request URL\<close>

lemma probe_url:
  "request_url jq (probe cb) = ''https://api.inaturalist.org/v2/users/me?fields=login''"
  by (simp add: request_url_def probe_def base_url_def)

lemma request_url_empty_fields:
  "req_fields r = Some [] \<Longrightarrow>
     request_url jq r =
       join ''/'' [base_url, apiVersion r, endpoint r]
       @ (case params r of Some p \<Rightarrow> ''?'' @ jq p | None \<Rightarrow> [])"
  by (simp add: request_url_def split: option.splits)

lemma request_url_other_version:
  "apiVersion r \<noteq> ''v2'' \<Longrightarrow>
     request_url jq r =
       join ''/'' [base_url, apiVersion r, endpoint r]
       @ (case params r of Some p \<Rightarrow> ''?'' @ jq p | None \<Rightarrow> [])"
  by (simp add: request_url_def split: option.splits)

text \<open>
  Claim C1, as the code has it. For a descriptor with \<open>apiVersion\<close> \<open>v2\<close> and a
  \<open>fields\<close> string that is not empty, the URL ends with \<open>fields=\<close> followed by the
  \<open>fields\<close> string itself, as the descriptor gives it; it follows \<open>?\<close>, or the
  query string of \<open>params\<close> and \<open>&\<close> when \<open>params\<close> is present. The dispatcher never
  calls \<open>toRISON\<close>.
\<close>

theorem request_url_fields_raw:
  "apiVersion r = ''v2'' \<Longrightarrow> req_fields r = Some f \<Longrightarrow> f \<noteq> [] \<Longrightarrow>
     request_url jq r =
       join ''/'' [base_url, ''v2'', endpoint r]
       @ (case params r of Some p \<Rightarrow> ''?'' @ jq p @ ''&'' | None \<Rightarrow> ''?'')
       @ ''fields='' @ f"
  by (simp add: request_url_def split: option.splits)

theorem request_url_fields_raw_witness:
  "apiVersion (probe 0 :: unit request) = ''v2''
   \<and> req_fields (probe 0 :: unit request) = Some ''login'' \<and> ''login'' \<noteq> []
   \<and> request_url example_param (probe 0 :: unit request)
       = ''https://api.inaturalist.org/v2/users/me?fields=login''"
  using request_url_fields_raw [of "probe 0 :: unit request" "''login''" example_param]
  by (simp add: probe_def base_url_def)

text \<open>
  Claim C1 as stated fails on the probe of \<open>checkAuthentication\<close>, whose \<open>fields\<close> is
  \<open>login\<close>: the code appends \<open>fields=login\<close>, the encoder would give
  \<open>fields=(login:!t)\<close>.
\<close>

theorem request_url_fields_encoded_counterexample:
  "request_url example_param (probe 0 :: unit request)
     = ''https://api.inaturalist.org/v2/users/me?fields=login''
   \<and> request_url_spec example_param (probe 0 :: unit request)
     = ''https://api.inaturalist.org/v2/users/me?fields=(login:!t)''
   \<and> request_url example_param (probe 0 :: unit request)
     \<noteq> request_url_spec example_param (probe 0 :: unit request)"
  by (simp add: request_url_def request_url_spec_def encoded_def probe_def base_url_def)

text \<open>
  Claim C2 at a descriptor for \<open>v2\<close> that has no \<open>fields\<close>: the claim says that no
  \<open>fields\<close> parameter is appended, and the code appends \<open>?fields=undefined\<close>, because
  \<open>undefined != ""\<close> holds.
\<close>

theorem request_url_absent_fields:
  "request_url example_param
     \<lparr>http_method = ''GET'', apiVersion = ''v2'', endpoint = ''observations'',
      params = (None :: unit option), req_fields = None, headers = NoHeaders,
      callbacks = Application 0\<rparr>
   = ''https://api.inaturalist.org/v2/observations?fields=undefined''"
  by (simp add: request_url_def base_url_def)

subsection \<open>The encoder\<close>

text \<open>
  Claim C7 at the input \<open>null\<close>, and at an object with a property that is \<open>null\<close>:
  the claim says that an input of another type gives the sentinel \<open>false\<close> and is
  not thrown on, and the code throws a \<open>TypeError\<close>.
\<close>

theorem toRISON_null_throws:
  "toRISON JNull = Inl TypeError \<and> toRISON (JObj [(''a'', JNull)]) = Inl TypeError"
  by (simp add: has_own_def)



subsection \<open>The queue\<close>

text \<open>
  Claim C4. After any sequence of events from the initial state, the descriptors
  whose \<open>success\<close> or \<open>error\<close> callback has been called, followed by the one in
  flight (there is at most one) and by the queue, are the descriptors passed to
  \<open>queueINatRequest\<close>, in the order they were passed: no callback is called twice,
  none out of order. When the
  transport then answers every call and every timeout fires (one round for each
  thing outstanding or queued is enough), the callbacks called are exactly the
  descriptors passed, each once and in that order, and the queue is no longer active.
\<close>

theorem callbacks_fifo_exactly_once:
  "fired (happened (run opts jq evs initial))
     @ in_flight (run opts jq evs initial) @ iNatAPIQueue (run opts jq evs initial) = pushed evs
   \<and> length (in_flight (run opts jq evs initial)) \<le> 1
   \<and> (length (in_flight (run opts jq evs initial)) + length (timers (run opts jq evs initial))
        + length (iNatAPIQueue (run opts jq evs initial)) \<le> length rs
      \<longrightarrow> fired (happened (run opts jq (evs @ rounds rs) initial)) = pushed evs
        \<and> \<not> iNatAPIQueued (run opts jq (evs @ rounds rs) initial))"
proof -
  let ?s = "run opts jq evs initial"
  have s: "serial ?s" using serial_initial by (rule serial_run)
  have o: "fired (happened ?s) @ pending ?s = pushed evs"
    using order_run [OF serial_initial, of opts jq evs] by (simp add: initial_def pending_def)
  have l: "length (in_flight ?s) \<le> 1"
    using s by (auto simp: serial_def split: if_splits)
  show ?thesis
    using o l drained [OF s, of rs opts jq]
    by (auto simp: run_append pending_def busy_def)
qed

theorem callbacks_fifo_exactly_once_witness:
  "length (in_flight (run apiOptions_default example_param example_events initial))
     + length (timers (run apiOptions_default example_param example_events initial))
     + length (iNatAPIQueue (run apiOptions_default example_param example_events initial))
     \<le> length [Failure, Success ''alice'', Failure]
   \<and> fired (happened (run apiOptions_default example_param
         (example_events @ rounds [Failure, Success ''alice'', Failure]) initial))
       = pushed example_events
   \<and> pushed example_events = [example_request 1, probe 0, example_request 2]"
proof -
  have a: "length (in_flight (run apiOptions_default example_param example_events initial))
     + length (timers (run apiOptions_default example_param example_events initial))
     + length (iNatAPIQueue (run apiOptions_default example_param example_events initial))
     \<le> length [Failure, Success ''alice'', Failure]"
    by code_simp
  have b: "pushed example_events = [example_request 1, probe 0, example_request 2]"
    by (simp add: example_events_def truthy_def)
  from a b callbacks_fifo_exactly_once [of apiOptions_default example_param example_events
      "[Failure, Success ''alice'', Failure]"]
  show ?thesis by blast
qed

text \<open>
  Claim C5. A call of \<open>makeINatRequest\<close> leaves the rate-limiting flag set exactly when
  the queue was not empty and either the flag was set already or, the head popped,
  more descriptors than the threshold remain; it leaves the queue-active flag as it
  was unless the queue was empty, and then it clears both flags. Over the events of
  a run: the flag goes from clear to set only in a step after which the queue is
  longer than the threshold; it goes from set to clear only when a timeout fires and
  finds the queue empty; and the queue-active flag is cleared only when a timeout,
  or a completion while the rate-limiting flag is clear, finds the queue empty.
\<close>

theorem rate_limiting_flag:
  "iNatAPIRateLimiting (makeINatRequest opts jq s)
     = (iNatAPIQueue s \<noteq> []
        \<and> (iNatAPIRateLimiting s \<or> RequestsPerMinute opts < length (tl (iNatAPIQueue s))))
   \<and> iNatAPIQueued (makeINatRequest opts jq s) = (iNatAPIQueue s \<noteq> [] \<and> iNatAPIQueued s)
   \<and> (\<not> iNatAPIRateLimiting t \<and> iNatAPIRateLimiting (step opts jq t e)
        \<longrightarrow> RequestsPerMinute opts < length (iNatAPIQueue (step opts jq t e)))
   \<and> (iNatAPIRateLimiting u \<and> \<not> iNatAPIRateLimiting (step opts jq u e')
        \<longrightarrow> iNatAPIQueue u = [] \<and> (\<exists>i. e' = TimerFires i))
   \<and> (iNatAPIQueued w \<and> \<not> iNatAPIQueued (step opts jq w e'')
        \<longrightarrow> iNatAPIQueue w = []
            \<and> ((\<exists>i. e'' = TimerFires i) \<or> (\<exists>i r. e'' = Completes i r \<and> \<not> iNatAPIRateLimiting w)))"
  using flag_set_step [of t opts jq e] flag_cleared_step [of u opts jq e']
    queued_cleared_step [of w opts jq e'']
  by (simp add: makeINatRequest_flags)

theorem rate_limiting_flag_witness:
  "\<not> iNatAPIRateLimiting (run strict_options example_param (burst 4) initial)
   \<and> iNatAPIRateLimiting
       (step strict_options example_param
          (run strict_options example_param (burst 4) initial) (Completes 0 Failure))
   \<and> RequestsPerMinute strict_options
       < length (iNatAPIQueue
           (step strict_options example_param
              (run strict_options example_param (burst 4) initial) (Completes 0 Failure)))
   \<and> iNatAPIRateLimiting cooling \<and> iNatAPIQueued cooling
   \<and> \<not> iNatAPIRateLimiting (step strict_options example_param cooling (TimerFires 0))
   \<and> \<not> iNatAPIQueued (step strict_options example_param cooling (TimerFires 0))
   \<and> iNatAPIQueue cooling = []"
proof -
  have h: "\<not> iNatAPIRateLimiting (run strict_options example_param (burst 4) initial)"
    "iNatAPIRateLimiting
       (step strict_options example_param
          (run strict_options example_param (burst 4) initial) (Completes 0 Failure))"
    "iNatAPIRateLimiting cooling" "iNatAPIQueued cooling"
    "\<not> iNatAPIRateLimiting (step strict_options example_param cooling (TimerFires 0))"
    "\<not> iNatAPIQueued (step strict_options example_param cooling (TimerFires 0))"
    by code_simp+
  from h rate_limiting_flag [of strict_options example_param initial
      "run strict_options example_param (burst 4) initial" "Completes 0 Failure"
      cooling "TimerFires 0" cooling "TimerFires 0"]
  show ?thesis by blast
qed

text \<open>
  Claim C6, as the code has it. In every run, when a call completes while the
  rate-limiting flag is set, a timeout with the configured cooldown (1000 ms by
  default) is set and nothing is dispatched. While the timeout is pending, whatever
  events other than its firing follow (calls of \<open>queueINatRequest\<close> and of
  \<open>checkAuthentication\<close>, completions), no call is in flight, nothing is dispatched,
  the timeout stays pending and the queue only grows by what is passed to it. When
  the timeout then fires, the head of the queue is dispatched, if there is one. When
  a call completes while the flag is clear, the next descriptor is dispatched in the
  same step and no timeout is set. Once set, the flag stays set until the queue is
  no longer active. It becomes set only in a step whose dispatch leaves more
  descriptors queued than the threshold, so the dispatch that sets it is itself not
  delayed.
\<close>

theorem cooldown_after_flag:
  "(in_flight (run opts jq evs initial) \<noteq> [] \<and> iNatAPIRateLimiting (run opts jq evs initial) \<longrightarrow>
      delays (happened (run opts jq (evs @ [Completes 0 r]) initial))
        = delays (happened (run opts jq evs initial)) @ [APITimeout opts]
      \<and> (\<forall>e. (\<forall>i. e \<noteq> TimerFires i) \<longrightarrow>
            in_flight (step opts jq (step opts jq (run opts jq evs initial) (Completes 0 r)) e) = [])
      \<and> (\<forall>es. list_all (\<lambda>e. \<not> timer_event e) es \<longrightarrow>
            in_flight (run opts jq (evs @ Completes 0 r # es) initial) = []
            \<and> timers (run opts jq (evs @ Completes 0 r # es) initial) = [APITimeout opts]
            \<and> dispatched (happened (run opts jq (evs @ Completes 0 r # es) initial))
                = dispatched (happened (run opts jq evs initial))
            \<and> delays (happened (run opts jq (evs @ Completes 0 r # es) initial))
                = delays (happened (run opts jq evs initial)) @ [APITimeout opts]
            \<and> iNatAPIQueue (run opts jq (evs @ Completes 0 r # es) initial)
                = iNatAPIQueue (run opts jq evs initial) @ pushed es
            \<and> in_flight (run opts jq (evs @ Completes 0 r # es @ [TimerFires 0]) initial)
                = take 1 (iNatAPIQueue (run opts jq evs initial) @ pushed es)
            \<and> iNatAPIQueue (run opts jq (evs @ Completes 0 r # es @ [TimerFires 0]) initial)
                = tl (iNatAPIQueue (run opts jq evs initial) @ pushed es)
            \<and> timers (run opts jq (evs @ Completes 0 r # es @ [TimerFires 0]) initial) = []
            \<and> dispatched (happened (run opts jq (evs @ Completes 0 r # es @ [TimerFires 0]) initial))
                = dispatched (happened (run opts jq evs initial))
                  @ take 1 (iNatAPIQueue (run opts jq evs initial) @ pushed es)))
   \<and> (in_flight (run opts jq evs' initial) \<noteq> [] \<and> \<not> iNatAPIRateLimiting (run opts jq evs' initial) \<longrightarrow>
      timers (run opts jq (evs' @ [Completes 0 r']) initial) = []
      \<and> in_flight (run opts jq (evs' @ [Completes 0 r']) initial)
          = take 1 (iNatAPIQueue (run opts jq evs' initial))
      \<and> iNatAPIQueue (run opts jq (evs' @ [Completes 0 r']) initial)
          = tl (iNatAPIQueue (run opts jq evs' initial))
      \<and> delays (happened (run opts jq (evs' @ [Completes 0 r']) initial))
          = delays (happened (run opts jq evs' initial))
      \<and> dispatched (happened (run opts jq (evs' @ [Completes 0 r']) initial))
          = dispatched (happened (run opts jq evs' initial))
            @ take 1 (iNatAPIQueue (run opts jq evs' initial)))
   \<and> (iNatAPIRateLimiting (run opts jq evs initial) \<longrightarrow>
        iNatAPIRateLimiting (run opts jq (evs @ later) initial)
        \<or> (\<exists>n \<le> length later. \<not> iNatAPIQueued (run opts jq (evs @ take n later) initial)))
   \<and> (\<not> iNatAPIRateLimiting (run opts jq evs' initial)
        \<and> iNatAPIRateLimiting (run opts jq (evs' @ [e2]) initial)
        \<longrightarrow> RequestsPerMinute opts
              < length (iNatAPIQueue (run opts jq (evs' @ [e2]) initial)))
   \<and> APITimeout apiOptions_default = 1000"
proof -
  let ?S = "run opts jq evs initial"
  let ?S' = "step opts jq ?S (Completes 0 r)"
  let ?T = "run opts jq evs' initial"
  have s: "serial ?S" "serial ?T"
    using serial_initial by (rule serial_run)+
  have A: "delays (happened ?S') = delays (happened ?S) @ [APITimeout opts]
      \<and> (\<forall>e. (\<forall>i. e \<noteq> TimerFires i) \<longrightarrow> in_flight (step opts jq ?S' e) = [])
      \<and> (\<forall>es. list_all (\<lambda>e. \<not> timer_event e) es \<longrightarrow>
            in_flight (run opts jq es ?S') = []
            \<and> timers (run opts jq es ?S') = [APITimeout opts]
            \<and> dispatched (happened (run opts jq es ?S')) = dispatched (happened ?S)
            \<and> delays (happened (run opts jq es ?S')) = delays (happened ?S) @ [APITimeout opts]
            \<and> iNatAPIQueue (run opts jq es ?S') = iNatAPIQueue ?S @ pushed es
            \<and> in_flight (step opts jq (run opts jq es ?S') (TimerFires 0))
                = take 1 (iNatAPIQueue ?S @ pushed es)
            \<and> iNatAPIQueue (step opts jq (run opts jq es ?S') (TimerFires 0))
                = tl (iNatAPIQueue ?S @ pushed es)
            \<and> timers (step opts jq (run opts jq es ?S') (TimerFires 0)) = []
            \<and> dispatched (happened (step opts jq (run opts jq es ?S') (TimerFires 0)))
                = dispatched (happened ?S) @ take 1 (iNatAPIQueue ?S @ pushed es))"
    if f: "in_flight ?S \<noteq> [] \<and> iNatAPIRateLimiting ?S"
  proof -
    from f have f1: "in_flight ?S \<noteq> []" and f2: "iNatAPIRateLimiting ?S" by simp_all
    note c = completes_cooldown [OF s(1) f1 f2, of opts jq r]
    note d = completes_cooldown_dispatched [OF s(1) f1 f2, of opts jq r]
    have w: "\<forall>e. (\<forall>i. e \<noteq> TimerFires i) \<longrightarrow> in_flight (step opts jq ?S' e) = []"
    proof (intro allI impI)
      fix e
      show "in_flight (step opts jq ?S' e) = []" if "\<forall>i. e \<noteq> TimerFires i"
        using c(2,5) that by (rule waits_for_timer)
    qed
    have q: "\<forall>es. list_all (\<lambda>e. \<not> timer_event e) es \<longrightarrow>
            in_flight (run opts jq es ?S') = []
            \<and> timers (run opts jq es ?S') = [APITimeout opts]
            \<and> dispatched (happened (run opts jq es ?S')) = dispatched (happened ?S)
            \<and> delays (happened (run opts jq es ?S')) = delays (happened ?S) @ [APITimeout opts]
            \<and> iNatAPIQueue (run opts jq es ?S') = iNatAPIQueue ?S @ pushed es
            \<and> in_flight (step opts jq (run opts jq es ?S') (TimerFires 0))
                = take 1 (iNatAPIQueue ?S @ pushed es)
            \<and> iNatAPIQueue (step opts jq (run opts jq es ?S') (TimerFires 0))
                = tl (iNatAPIQueue ?S @ pushed es)
            \<and> timers (step opts jq (run opts jq es ?S') (TimerFires 0)) = []
            \<and> dispatched (happened (step opts jq (run opts jq es ?S') (TimerFires 0)))
                = dispatched (happened ?S) @ take 1 (iNatAPIQueue ?S @ pushed es)"
    proof (intro allI impI)
      fix es :: "'a event list"
      assume es: "list_all (\<lambda>e. \<not> timer_event e) es"
      from quiet_run [OF c(2,5) es, of opts jq] c(1,3,4) d
      have q1: "in_flight (run opts jq es ?S') = []"
        "timers (run opts jq es ?S') = [APITimeout opts]"
        "dispatched (happened (run opts jq es ?S')) = dispatched (happened ?S)"
        "delays (happened (run opts jq es ?S')) = delays (happened ?S) @ [APITimeout opts]"
        "iNatAPIQueue (run opts jq es ?S') = iNatAPIQueue ?S @ pushed es"
        by simp_all
      from timer_dispatches [OF q1(1,2), of opts jq] q1
      show "in_flight (run opts jq es ?S') = []
            \<and> timers (run opts jq es ?S') = [APITimeout opts]
            \<and> dispatched (happened (run opts jq es ?S')) = dispatched (happened ?S)
            \<and> delays (happened (run opts jq es ?S')) = delays (happened ?S) @ [APITimeout opts]
            \<and> iNatAPIQueue (run opts jq es ?S') = iNatAPIQueue ?S @ pushed es
            \<and> in_flight (step opts jq (run opts jq es ?S') (TimerFires 0))
                = take 1 (iNatAPIQueue ?S @ pushed es)
            \<and> iNatAPIQueue (step opts jq (run opts jq es ?S') (TimerFires 0))
                = tl (iNatAPIQueue ?S @ pushed es)
            \<and> timers (step opts jq (run opts jq es ?S') (TimerFires 0)) = []
            \<and> dispatched (happened (step opts jq (run opts jq es ?S') (TimerFires 0)))
                = dispatched (happened ?S) @ take 1 (iNatAPIQueue ?S @ pushed es)"
        by simp
    qed
    from c(4) w q show ?thesis by (intro conjI)
  qed
  have B: "timers (step opts jq ?T (Completes 0 r')) = []
      \<and> in_flight (step opts jq ?T (Completes 0 r')) = take 1 (iNatAPIQueue ?T)
      \<and> iNatAPIQueue (step opts jq ?T (Completes 0 r')) = tl (iNatAPIQueue ?T)
      \<and> delays (happened (step opts jq ?T (Completes 0 r'))) = delays (happened ?T)
      \<and> dispatched (happened (step opts jq ?T (Completes 0 r')))
          = dispatched (happened ?T) @ take 1 (iNatAPIQueue ?T)"
    if f: "in_flight ?T \<noteq> [] \<and> \<not> iNatAPIRateLimiting ?T"
  proof -
    from f have f1: "in_flight ?T \<noteq> []" and f2: "\<not> iNatAPIRateLimiting ?T" by simp_all
    from completes_immediately [OF s(2) f1 f2, of opts jq r']
      completes_immediately_dispatched [OF s(2) f1 f2, of opts jq r']
    show ?thesis by (intro conjI)
  qed
  have C: "iNatAPIRateLimiting (run opts jq later ?S)
        \<or> (\<exists>n \<le> length later. \<not> iNatAPIQueued (run opts jq (take n later) ?S))"
    if "iNatAPIRateLimiting ?S"
    using that by (rule flag_persists_run)
  have D: "RequestsPerMinute opts < length (iNatAPIQueue (step opts jq ?T e2))"
    if f: "\<not> iNatAPIRateLimiting ?T \<and> iNatAPIRateLimiting (step opts jq ?T e2)"
  proof -
    from f have "\<not> iNatAPIRateLimiting ?T" and "iNatAPIRateLimiting (step opts jq ?T e2)"
      by simp_all
    then show ?thesis by (rule flag_set_step)
  qed
  have E: "APITimeout apiOptions_default = 1000" by (simp add: apiOptions_default_def)
  show ?thesis
    apply (simp only: run_append run_Cons run_Nil)
    apply (rule conjI, rule impI, rule A, assumption)
    apply (rule conjI, rule impI, rule B, assumption)
    apply (rule conjI, rule impI, rule C, assumption)
    apply (rule conjI, rule impI, rule D, assumption)
    apply (rule E)
    done
qed

theorem cooldown_after_flag_witness:
  "in_flight (run strict_options example_param (burst 4 @ rounds [Failure]) initial) \<noteq> []
   \<and> iNatAPIRateLimiting (run strict_options example_param (burst 4 @ rounds [Failure]) initial)
   \<and> list_all (\<lambda>e. \<not> timer_event e) example_events
   \<and> in_flight (run strict_options example_param
        ((burst 4 @ rounds [Failure]) @ Completes 0 Failure # example_events) initial) = []
   \<and> timers (run strict_options example_param
        ((burst 4 @ rounds [Failure]) @ Completes 0 Failure # example_events) initial)
      = [APITimeout strict_options]
   \<and> dispatched (happened (run strict_options example_param
        ((burst 4 @ rounds [Failure]) @ Completes 0 Failure # example_events) initial))
      = dispatched (happened (run strict_options example_param (burst 4 @ rounds [Failure]) initial))
   \<and> in_flight (run strict_options example_param
        ((burst 4 @ rounds [Failure]) @ Completes 0 Failure # example_events @ [TimerFires 0])
        initial)
      = take 1 (iNatAPIQueue (run strict_options example_param (burst 4 @ rounds [Failure]) initial)
                @ pushed example_events)
   \<and> in_flight (run strict_options example_param (burst 4) initial) \<noteq> []
   \<and> \<not> iNatAPIRateLimiting (run strict_options example_param (burst 4) initial)
   \<and> timers (run strict_options example_param (burst 4 @ [Completes 0 Failure]) initial) = []
   \<and> in_flight (run strict_options example_param (burst 4 @ [Completes 0 Failure]) initial)
      = take 1 (iNatAPIQueue (run strict_options example_param (burst 4) initial))
   \<and> iNatAPIRateLimiting (run strict_options example_param (burst 4 @ [Completes 0 Failure]) initial)
   \<and> RequestsPerMinute strict_options
      < length (iNatAPIQueue
          (run strict_options example_param (burst 4 @ [Completes 0 Failure]) initial))
   \<and> (iNatAPIRateLimiting (run strict_options example_param
          ((burst 4 @ rounds [Failure]) @ [Completes 0 Failure, TimerFires 0]) initial)
       \<or> (\<exists>n \<le> length ([Completes 0 Failure, TimerFires 0] :: unit event list).
            \<not> iNatAPIQueued (run strict_options example_param
                ((burst 4 @ rounds [Failure]) @ take n [Completes 0 Failure, TimerFires 0])
                initial)))"
proof -
  have h: "in_flight (run strict_options example_param (burst 4 @ rounds [Failure]) initial) \<noteq> []"
    "iNatAPIRateLimiting (run strict_options example_param (burst 4 @ rounds [Failure]) initial)"
    "list_all (\<lambda>e. \<not> timer_event e) example_events"
    "in_flight (run strict_options example_param (burst 4) initial) \<noteq> []"
    "\<not> iNatAPIRateLimiting (run strict_options example_param (burst 4) initial)"
    "iNatAPIRateLimiting (run strict_options example_param (burst 4 @ [Completes 0 Failure]) initial)"
    by code_simp+
  note t = cooldown_after_flag [of strict_options example_param "burst 4 @ rounds [Failure]"
      Failure "burst 4" Failure "[Completes 0 Failure, TimerFires 0]" "Completes 0 Failure"]
  note a = t [THEN conjunct1, THEN mp, OF conjI [OF h(1) h(2)]]
  note q = a [THEN conjunct2, THEN conjunct2, THEN spec, of example_events, THEN mp, OF h(3)]
  note b = t [THEN conjunct2, THEN conjunct1, THEN mp, OF conjI [OF h(4) h(5)]]
  note c = t [THEN conjunct2, THEN conjunct2, THEN conjunct1, THEN mp, OF h(2)]
  note d = t [THEN conjunct2, THEN conjunct2, THEN conjunct2, THEN conjunct1, THEN mp,
      OF conjI [OF h(5) h(6)]]
  note q1 = q [THEN conjunct1]
  note q2 = q [THEN conjunct2, THEN conjunct1]
  note q3 = q [THEN conjunct2, THEN conjunct2, THEN conjunct1]
  note q6 = q [THEN conjunct2, THEN conjunct2, THEN conjunct2, THEN conjunct2, THEN conjunct2,
      THEN conjunct1]
  note b1 = b [THEN conjunct1]
  note b2 = b [THEN conjunct2, THEN conjunct1]
  show ?thesis
    by (intro conjI) (rule h q1 q2 q3 q6 b1 b2 c d)+
qed

text \<open>
  Claim C6 as stated fails. With the defaults, 62 requests queued while the first is
  in flight make the queue 61 deep, above the threshold of 60; the first completion
  dispatches the second request at once, and since 60 remain the flag is not set.
  With a threshold of one, three requests (a depth of two) are all answered without
  a single timeout.
\<close>

theorem cooldown_depth_counterexample:
  "RequestsPerMinute apiOptions_default
     < length (iNatAPIQueue (run apiOptions_default example_param (burst 62) initial))
   \<and> iNatAPIQueued (run apiOptions_default example_param (burst 62) initial)
   \<and> in_flight (run apiOptions_default example_param (burst 62) initial) = [example_request 0]
   \<and> in_flight (step apiOptions_default example_param
        (run apiOptions_default example_param (burst 62) initial) (Completes 0 Failure))
      = [example_request 1]
   \<and> timers (step apiOptions_default example_param
        (run apiOptions_default example_param (burst 62) initial) (Completes 0 Failure)) = []
   \<and> delays (happened (step apiOptions_default example_param
        (run apiOptions_default example_param (burst 62) initial) (Completes 0 Failure))) = []
   \<and> RequestsPerMinute strict_options
     < length (iNatAPIQueue (run strict_options example_param (burst 3) initial))
   \<and> fired (happened (run strict_options example_param
        (burst 3 @ rounds [Failure, Failure, Failure]) initial))
      = [example_request 0, example_request 1, example_request 2]
   \<and> delays (happened (run strict_options example_param
        (burst 3 @ rounds [Failure, Failure, Failure]) initial)) = []"
  by code_simp

subsection \<open>The authentication check\<close>

text \<open>
  Claim C3, as the code has it. With a missing or empty token
  \<open>checkAuthentication\<close> calls \<open>callback(false)\<close> at once and does nothing else: the
  \<open>Authorization\<close> header and \<open>iNatAuthorized\<close> are left as they were. When the probe
  of a verification completes with an error, the header is set to the empty string,
  \<open>iNatAuthorized\<close> to \<open>false\<close>, and \<open>callback(false, ...)\<close> is called after the
  descriptor's \<open>error\<close> callback.
\<close>

theorem checkAuthentication_failure:
  "(\<not> truthy apiToken \<longrightarrow>
      checkAuthentication opts jq apiToken cb s = s\<lparr>happened := happened s @ [Verified cb False]\<rparr>)
   \<and> (i < length (in_flight t) \<and> callbacks (in_flight t ! i) = Probe cb' \<longrightarrow>
        Authorization (step opts jq t (Completes i Failure)) = []
        \<and> iNatAuthorized (step opts jq t (Completes i Failure)) = None
        \<and> (\<exists>more. happened (step opts jq t (Completes i Failure))
              = happened t @ [ErrorCalled (in_flight t ! i), Verified cb' False] @ more))"
proof -
  have a: "checkAuthentication opts jq apiToken cb s = s\<lparr>happened := happened s @ [Verified cb False]\<rparr>"
    if "\<not> truthy apiToken"
    using that by (auto simp: checkAuthentication_def truthy_def split: option.splits)
  have b: "Authorization (step opts jq t (Completes i Failure)) = []
        \<and> iNatAuthorized (step opts jq t (Completes i Failure)) = None
        \<and> (\<exists>more. happened (step opts jq t (Completes i Failure))
              = happened t @ [ErrorCalled (in_flight t ! i), Verified cb' False] @ more)"
    if i: "i < length (in_flight t)" and p: "callbacks (in_flight t ! i) = Probe cb'"
  proof -
    let ?t1 = "run_callback (in_flight t ! i) Failure (t\<lparr>in_flight := without i (in_flight t)\<rparr>)"
    have s: "step opts jq t (Completes i Failure) = complete opts jq ?t1" using i by simp
    have t1: "Authorization ?t1 = []" "iNatAuthorized ?t1 = None"
      "happened ?t1 = happened t @ [ErrorCalled (in_flight t ! i), Verified cb' False]"
      using p by (simp_all add: run_callback_def)
    obtain more where "happened (complete opts jq ?t1) = happened ?t1 @ more"
      using complete_happened by blast
    with t1 show ?thesis unfolding s by (simp add: complete_auth)
  qed
  from a b show ?thesis by blast
qed

theorem checkAuthentication_failure_witness:
  "\<not> truthy None
   \<and> checkAuthentication apiOptions_default example_param None 1 authorized
       = authorized\<lparr>happened := happened authorized @ [Verified 1 False]\<rparr>
   \<and> 0 < length (in_flight probing) \<and> callbacks (in_flight probing ! 0) = Probe 0
   \<and> Authorization (step apiOptions_default example_param probing (Completes 0 Failure)) = []
   \<and> iNatAuthorized (step apiOptions_default example_param probing (Completes 0 Failure)) = None
   \<and> (\<exists>more. happened (step apiOptions_default example_param probing (Completes 0 Failure))
         = happened probing @ [ErrorCalled (in_flight probing ! 0), Verified 0 False] @ more)"
proof -
  have h: "\<not> truthy None" "0 < length (in_flight probing)"
    "callbacks (in_flight probing ! 0) = Probe 0"
    by code_simp+
  from h checkAuthentication_failure [of None apiOptions_default example_param 1 authorized
      0 probing 0]
  show ?thesis by blast
qed

text \<open>
  Claim C3 as stated fails for the missing token: after a verification has
  succeeded, a call without a token reports \<open>false\<close> and leaves the header and
  \<open>iNatAuthorized\<close> set.
\<close>

theorem checkAuthentication_missing_token_counterexample:
  "\<not> truthy None
   \<and> Authorization authorized = ''token'' \<and> iNatAuthorized authorized = Some ''alice''
   \<and> happened (checkAuthentication apiOptions_default example_param None 1 authorized)
       = happened authorized @ [Verified 1 False]
   \<and> Authorization (checkAuthentication apiOptions_default example_param None 1 authorized)
       = ''token''
   \<and> iNatAuthorized (checkAuthentication apiOptions_default example_param None 1 authorized)
       = Some ''alice''"
  by code_simp

subsection \<open>The URL parameter parser\<close>

text \<open>
  Claim C8, as the code has it. \<open>getUrlParams\<close> decodes the value of every match of
  the regular expression, from left to right; if all decode, the object it builds
  maps every key but \<open>__proto__\<close> to the decoded value of the last match with that key.
  It returns that object when the key argument is absent or empty, and otherwise the
  property of that name: the own one, else the one inherited from
  \<open>Object.prototype\<close>, else \<open>undefined\<close>. On a query string \<open>?k1=v1&...&kn=vn\<close> whose
  keys are not empty and have no \<open>=\<close> or \<open>&\<close> and whose values have no \<open>&\<close>, the
  matches are the pairs \<open>(ki, vi)\<close>; so the result is the map of the decoded pairs in
  which a later pair wins, and for a key that is not empty and not a name of
  \<open>Object.prototype\<close> it is the decoded value of the last pair with that key, or
  \<open>undefined\<close> when there is none.
\<close>

theorem getUrlParams_last_wins:
  "getUrlParams url key =
     (case decode_all (matches url) of
        Inl e \<Rightarrow> Inl e
      | Inr ds \<Rightarrow>
          (case key of
             None \<Rightarrow> Inr (Params (last_wins ds))
           | Some k \<Rightarrow>
               if k = [] then Inr (Params (last_wins ds))
               else Inr (property (last_wins ds) k)))
   \<and> (list_all well_formed_pair kvs \<and> decode_all kvs = Inr ds' \<longrightarrow>
        matches (query_string kvs) = kvs
        \<and> getUrlParams (query_string kvs) None = Inr (Params (last_wins ds'))
        \<and> (k' \<noteq> [] \<and> k' \<notin> set Object_prototype_names \<longrightarrow>
             getUrlParams (query_string kvs) (Some k')
               = Inr (case map_of (rev ds') k' of Some d \<Rightarrow> Own d | None \<Rightarrow> Undefined)))"
proof -
  have "getUrlParams (query_string kvs) (Some k')
          = Inr (case map_of (rev ds') k' of Some d \<Rightarrow> Own d | None \<Rightarrow> Undefined)"
    if "list_all well_formed_pair kvs" "decode_all kvs = Inr ds'" "k' \<noteq> []"
      "k' \<notin> set Object_prototype_names"
  proof -
    from that(4) have "k' \<noteq> ''__proto__''" by (auto simp: Object_prototype_names_def)
    with that show ?thesis
      by (simp add: getUrlParams_matches matches_query_string property_def last_wins_def
          split: option.splits)
  qed
  then show ?thesis
    by (auto simp: getUrlParams_matches matches_query_string)
qed

theorem getUrlParams_last_wins_witness:
  "list_all well_formed_pair [(''a'', ''1''), (''b'', ''two%20words''), (''a'', ''2'')]
   \<and> decode_all [(''a'', ''1''), (''b'', ''two%20words''), (''a'', ''2'')]
       = Inr [(''a'', ''1''), (''b'', ''two words''), (''a'', ''2'')]
   \<and> query_string [(''a'', ''1''), (''b'', ''two%20words''), (''a'', ''2'')]
       = ''?a=1&b=two%20words&a=2''
   \<and> ''b'' \<noteq> [] \<and> ''b'' \<notin> set Object_prototype_names
   \<and> getUrlParams ''?a=1&b=two%20words&a=2'' (Some ''b'') = Inr (Own ''two words'')
   \<and> getUrlParams ''?a=1&b=two%20words&a=2'' None
       = Inr (Params (last_wins [(''a'', ''1''), (''b'', ''two words''), (''a'', ''2'')]))
   \<and> last_wins [(''a'', ''1''), (''b'', ''two words''), (''a'', ''2'')] ''a'' = Some ''2''"
proof -
  have h: "list_all well_formed_pair [(''a'', ''1''), (''b'', ''two%20words''), (''a'', ''2'')]"
    "decode_all [(''a'', ''1''), (''b'', ''two%20words''), (''a'', ''2'')]
       = Inr [(''a'', ''1''), (''b'', ''two words''), (''a'', ''2'')]"
    "query_string [(''a'', ''1''), (''b'', ''two%20words''), (''a'', ''2'')]
       = ''?a=1&b=two%20words&a=2''"
    "''b'' \<notin> set Object_prototype_names"
    "last_wins [(''a'', ''1''), (''b'', ''two words''), (''a'', ''2'')] ''a'' = Some ''2''"
    "map_of (rev [(''a'', ''1''), (''b'', ''two words''), (''a'', ''2'')]) ''b'' = Some ''two words''"
    by code_simp+
  from getUrlParams_last_wins [of "''?a=1&b=two%20words&a=2''" None
      "[(''a'', ''1''), (''b'', ''two%20words''), (''a'', ''2'')]"
      "[(''a'', ''1''), (''b'', ''two words''), (''a'', ''2'')]" "''b''"] h
  show ?thesis by simp
qed

text \<open>
  Claim C8 as stated fails: \<open>?\<close> separates two pairs only where a match starts. In
  \<open>a=1?b=2\<close> the code finds the one pair \<open>a\<close>, \<open>1?b=2\<close>, where the pieces between
  the separators are \<open>a=1\<close> and \<open>b=2\<close>. And for the absent key \<open>toString\<close> the code
  returns the function that \<open>params\<close> inherits, not \<open>undefined\<close>.
\<close>

theorem getUrlParams_separator_counterexample:
  "getUrlParams ''a=1?b=2'' (Some ''b'') = Inr Undefined
   \<and> parseURLParams_spec ''a=1?b=2'' (Some ''b'') = Inr (Own ''2'')
   \<and> getUrlParams ''a=1?b=2'' (Some ''a'') = Inr (Own ''1?b=2'')
   \<and> parseURLParams_spec ''a=1?b=2'' (Some ''a'') = Inr (Own ''1'')
   \<and> getUrlParams ''?a=1'' (Some ''toString'') = Inr (Inherited ''toString'')
   \<and> parseURLParams_spec ''?a=1'' (Some ''toString'') = Inr Undefined"
proof -
  have m: "matches ''a=1?b=2'' = [(''a'', ''1?b=2'')]" "matches ''?a=1'' = [(''a'', ''1'')]"
    "spec_pairs ''a=1?b=2'' = [(''a'', ''1''), (''b'', ''2'')]"
    "spec_pairs ''?a=1'' = [(''a'', ''1'')]"
    by code_simp+
  have d: "decode_all [(''a'', ''1?b=2'')] = Inr [(''a'', ''1?b=2'')]"
    "decode_all [(''a'', ''1'')] = Inr [(''a'', ''1'')]"
    "decode_all [(''a'', ''1''), (''b'', ''2'')] = Inr [(''a'', ''1''), (''b'', ''2'')]"
    by code_simp+
  show ?thesis
    by (simp add: getUrlParams_matches parseURLParams_spec_def m d property_def last_wins_def
        Object_prototype_names_def del: decode_all.simps)
qed

text \<open>
  Claim C10. Whenever the value of some match does not decode, \<open>getUrlParams\<close> throws
  a \<open>URIError\<close>, whatever the key argument: it returns no object and no value.
\<close>

theorem getUrlParams_URIError:
  "(k, v) \<in> set (matches url) \<Longrightarrow> decodeURIComponent v = Inl e \<Longrightarrow>
     getUrlParams url key = Inl URIError"
  by (simp add: getUrlParams_matches decode_all_error)

theorem getUrlParams_URIError_witness:
  "(''a'', ''%'') \<in> set (matches ''?a=%'') \<and> decodeURIComponent ''%'' = Inl URIError
   \<and> getUrlParams ''?a=%'' None = Inl URIError \<and> getUrlParams ''?a=%'' (Some ''b'') = Inl URIError"
proof -
  have h: "(''a'', ''%'') \<in> set (matches ''?a=%'')" "decodeURIComponent ''%'' = Inl URIError"
    by code_simp+
  from h getUrlParams_URIError [of "''a''" "''%''" "''?a=%''" URIError]
  show ?thesis by blast
qed

end
